theory Spec2Isabelle
  imports Complex_Main "HOL-Library.Product_Lexorder"
begin

section \<open>Python strings\<close>

text \<open>
  A Python \<open>str\<close> is modelled as a \<open>string\<close> whose characters are the code points
  below 256.  \<open>len\<close> is \<open>length\<close>, read as a Python \<open>int\<close>.
\<close>

definition len :: "string \<Rightarrow> int" where
  "len s = int (length s)"

definition isspace :: "char \<Rightarrow> bool" where
  \<comment> \<open>the code points below 256 that \<open>str.isspace\<close> accepts; \<open>strip()\<close> and
      \<open>split()\<close> without arguments use the same test\<close>
  "isspace c = (let n = (of_char c :: nat)
                in (9 \<le> n \<and> n \<le> 13) \<or> (28 \<le> n \<and> n \<le> 32) \<or> n = 133 \<or> n = 160)"

definition strip :: "string \<Rightarrow> string" where
  \<comment> \<open>\<open>s.strip()\<close>\<close>
  "strip s = rev (dropWhile isspace (rev (dropWhile isspace s)))"

fun split_sep :: "char \<Rightarrow> string \<Rightarrow> string \<Rightarrow> string list" where
  \<comment> \<open>\<open>s.split(sep)\<close> for a one-character separator; the second argument is the
      piece read so far, reversed\<close>
  "split_sep sep acc [] = [rev acc]"
| "split_sep sep acc (c # cs) =
     (if c = sep then rev acc # split_sep sep [] cs else split_sep sep (c # acc) cs)"

fun split_ws :: "string \<Rightarrow> string \<Rightarrow> string list" where
  \<comment> \<open>\<open>s.split()\<close>: the maximal runs of non-whitespace characters\<close>
  "split_ws acc [] = (if acc = [] then [] else [rev acc])"
| "split_ws acc (c # cs) =
     (if isspace c then (if acc = [] then split_ws [] cs else rev acc # split_ws [] cs)
      else split_ws (c # acc) cs)"

definition py_split :: "string \<Rightarrow> string list" where
  "py_split s = split_ws [] s"

section \<open>The text segmenter: \<open>split_into_chunks\<close>\<close>

fun pack_words :: "int \<Rightarrow> string list \<Rightarrow> string \<Rightarrow> string list \<Rightarrow> string list \<times> string" where
  \<comment> \<open>the loop \<open>for word in words\<close> (lines 41-46 and 72-77) on the state
      \<open>(chunks, temp_chunk)\<close>\<close>
  "pack_words max_length chunks temp_chunk [] = (chunks, temp_chunk)"
| "pack_words max_length chunks temp_chunk (word # words) =
     (if len temp_chunk + len word + 1 \<le> max_length
      then pack_words max_length chunks
             (if temp_chunk \<noteq> [] then temp_chunk @ '' '' @ word else word) words
      else pack_words max_length (chunks @ [strip temp_chunk]) word words)"

definition split_words :: "int \<Rightarrow> string list \<Rightarrow> string \<Rightarrow> string list" where
  \<comment> \<open>\<open>words = part.split(); temp_chunk = ""\<close>, the loop, and the flush of a
      non-empty \<open>temp_chunk\<close> (lines 39-48 and 70-79)\<close>
  "split_words max_length chunks part =
     (case pack_words max_length chunks [] (py_split part) of
        (chunks', temp_chunk) \<Rightarrow>
          if temp_chunk \<noteq> [] then chunks' @ [strip temp_chunk] else chunks')"

fun comma_loop :: "int \<Rightarrow> string list \<Rightarrow> string list \<Rightarrow> string list" where
  \<comment> \<open>\<open>for part in comma_parts\<close> (lines 36-50)\<close>
  "comma_loop max_length chunks [] = chunks"
| "comma_loop max_length chunks (part # parts) =
     (if len part > max_length
      then comma_loop max_length (split_words max_length chunks part) parts
      else comma_loop max_length (chunks @ [part]) parts)"

definition comma_parts :: "string \<Rightarrow> string list" where
  \<comment> \<open>\<open>[p.strip() + "," for p in sentence.split(",") if p.strip()]\<close>\<close>
  "comma_parts sentence =
     map (\<lambda>p. strip p @ '','') (filter (\<lambda>p. strip p \<noteq> []) (split_sep CHR '','' [] sentence))"

fun sentence_loop :: "int \<Rightarrow> string list \<Rightarrow> string \<Rightarrow> string list \<Rightarrow> string list \<times> string" where
  \<comment> \<open>\<open>for sentence in sentences\<close> (lines 28-57) on the state
      \<open>(chunks, current_chunk)\<close>\<close>
  "sentence_loop max_length chunks current_chunk [] = (chunks, current_chunk)"
| "sentence_loop max_length chunks current_chunk (sentence # sentences) =
     (if strip sentence = [] then sentence_loop max_length chunks current_chunk sentences
      else if len sentence > max_length
      then sentence_loop max_length
             (comma_loop max_length chunks (comma_parts sentence)) current_chunk sentences
      else if len current_chunk + len sentence + 1 \<le> max_length
      then sentence_loop max_length chunks
             (if current_chunk \<noteq> [] then current_chunk @ '' '' @ sentence else sentence)
             sentences
      else sentence_loop max_length
             (if current_chunk \<noteq> [] then chunks @ [strip current_chunk] else chunks)
             sentence sentences)"

fun final_loop :: "int \<Rightarrow> string list \<Rightarrow> string list \<Rightarrow> string list" where
  \<comment> \<open>the final cleanup \<open>for chunk in chunks\<close> (lines 65-79)\<close>
  "final_loop max_length final_chunks [] = final_chunks"
| "final_loop max_length final_chunks (chunk # chunks) =
     (if len chunk \<le> max_length
      then final_loop max_length (final_chunks @ [chunk]) chunks
      else final_loop max_length (split_words max_length final_chunks chunk) chunks)"

definition sentences_of :: "string \<Rightarrow> string list" where
  \<comment> \<open>\<open>[s.strip() + "." for s in text.split(".") if s.strip()]\<close>\<close>
  "sentences_of text =
     map (\<lambda>s. strip s @ ''.'') (filter (\<lambda>s. strip s \<noteq> []) (split_sep CHR ''.'' [] text))"

definition split_into_chunks :: "string \<Rightarrow> int \<Rightarrow> string list" where
  "split_into_chunks text max_length =
     (case sentence_loop max_length [] [] (sentences_of text) of
        (chunks, current_chunk) \<Rightarrow>
          final_loop max_length []
            (if current_chunk \<noteq> [] then chunks @ [strip current_chunk] else chunks))"

section \<open>The similarity scorer: \<open>text_similarity\<close>\<close>

definition lower_char :: "char \<Rightarrow> char" where
  \<comment> \<open>\<open>str.lower\<close> on one code point below 256\<close>
  "lower_char c = (let n = (of_char c :: nat)
                   in if (65 \<le> n \<and> n \<le> 90) \<or> (192 \<le> n \<and> n \<le> 222 \<and> n \<noteq> 215)
                      then char_of (n + 32) else c)"

definition lower :: "string \<Rightarrow> string" where
  "lower s = map lower_char s"

fun join :: "string \<Rightarrow> string list \<Rightarrow> string" where
  \<comment> \<open>\<open>sep.join(xs)\<close>\<close>
  "join sep [] = []"
| "join sep [x] = x"
| "join sep (x # y # ys) = x @ sep @ join sep (y # ys)"

definition normalize :: "string \<Rightarrow> string" where
  \<comment> \<open>\<open>' '.join(text.lower().split())\<close>\<close>
  "normalize text = join '' '' (py_split (lower text))"

subsection \<open>\<open>difflib.SequenceMatcher(None, a, b)\<close>\<close>

text \<open>
  The standard library's matcher with \<open>isjunk = None\<close> and \<open>autojunk = True\<close>, as
  \<open>text_similarity\<close> constructs it.  The junk set is empty, so the tests
  \<open>not isbjunk(...)\<close> always pass and the two loops that extend a match over junk
  never run.  The dictionary \<open>b2j\<close> is a function to index lists, the empty list for a
  missing key, as \<open>b2j.get(a[i], nothing)\<close> reads it.
\<close>

definition indices :: "string \<Rightarrow> char \<Rightarrow> nat list" where
  \<comment> \<open>\<open>b2j[elt]\<close> after the first loop of \<open>__chain_b\<close>: the positions of \<open>elt\<close> in
      \<open>b\<close>, increasing\<close>
  "indices b elt = filter (\<lambda>i. b ! i = elt) [0..<length b]"

definition popular :: "string \<Rightarrow> char \<Rightarrow> bool" where
  \<comment> \<open>\<open>n >= 200\<close> and \<open>len(idxs) > n // 100 + 1\<close>\<close>
  "popular b elt = (length b \<ge> 200 \<and> length (indices b elt) > length b div 100 + 1)"

definition chain_b :: "string \<Rightarrow> char \<Rightarrow> nat list" where
  \<comment> \<open>\<open>b2j\<close> after the popular elements are deleted\<close>
  "chain_b b elt = (if popular b elt then [] else indices b elt)"

definition j2lenget :: "(nat \<rightharpoonup> nat) \<Rightarrow> nat \<Rightarrow> nat" where
  \<comment> \<open>\<open>j2len.get(j-1, 0)\<close>; the key \<open>-1\<close> is never stored\<close>
  "j2lenget j2len j = (if j = 0 then 0 else case j2len (j - 1) of None \<Rightarrow> 0 | Some v \<Rightarrow> v)"

type_synonym match = "nat \<times> nat \<times> nat"

fun inner_loop ::
  "nat \<Rightarrow> nat \<Rightarrow> nat \<Rightarrow> (nat \<rightharpoonup> nat) \<Rightarrow> nat list \<Rightarrow> (nat \<rightharpoonup> nat) \<times> match
    \<Rightarrow> (nat \<rightharpoonup> nat) \<times> match" where
  \<comment> \<open>\<open>for j in b2j.get(a[i], nothing)\<close> on the state
      \<open>(newj2len, (besti, bestj, bestsize))\<close>\<close>
  "inner_loop blo bhi i j2len [] st = st"
| "inner_loop blo bhi i j2len (j # js) (newj2len, besti, bestj, bestsize) =
     (if j < blo then inner_loop blo bhi i j2len js (newj2len, besti, bestj, bestsize)
      else if j \<ge> bhi then (newj2len, besti, bestj, bestsize)
      else let k = j2lenget j2len j + 1
           in if k > bestsize
              then inner_loop blo bhi i j2len js (newj2len(j \<mapsto> k), i + 1 - k, j + 1 - k, k)
              else inner_loop blo bhi i j2len js (newj2len(j \<mapsto> k), besti, bestj, bestsize))"

fun outer_loop ::
  "string \<Rightarrow> (char \<Rightarrow> nat list) \<Rightarrow> nat \<Rightarrow> nat \<Rightarrow> nat list \<Rightarrow> (nat \<rightharpoonup> nat) \<times> match
    \<Rightarrow> (nat \<rightharpoonup> nat) \<times> match" where
  \<comment> \<open>\<open>for i in range(alo, ahi)\<close> on the state \<open>(j2len, (besti, bestj, bestsize))\<close>\<close>
  "outer_loop a b2j blo bhi [] st = st"
| "outer_loop a b2j blo bhi (i # is) (j2len, best) =
     outer_loop a b2j blo bhi is (inner_loop blo bhi i j2len (b2j (a ! i)) (Map.empty, best))"

function extend_back :: "string \<Rightarrow> string \<Rightarrow> nat \<Rightarrow> nat \<Rightarrow> match \<Rightarrow> match" where
  "extend_back a b alo blo (besti, bestj, bestsize) =
     (if besti > alo \<and> bestj > blo \<and> a ! (besti - 1) = b ! (bestj - 1)
      then extend_back a b alo blo (besti - 1, bestj - 1, bestsize + 1)
      else (besti, bestj, bestsize))"
  by pat_completeness auto
termination
  by (relation "measure (\<lambda>(a, b, alo, blo, besti, bestj, bestsize). besti)") auto

function extend_fwd :: "string \<Rightarrow> string \<Rightarrow> nat \<Rightarrow> nat \<Rightarrow> match \<Rightarrow> match" where
  "extend_fwd a b ahi bhi (besti, bestj, bestsize) =
     (if besti + bestsize < ahi \<and> bestj + bestsize < bhi
         \<and> a ! (besti + bestsize) = b ! (bestj + bestsize)
      then extend_fwd a b ahi bhi (besti, bestj, bestsize + 1)
      else (besti, bestj, bestsize))"
  by pat_completeness auto
termination
  by (relation "measure (\<lambda>(a, b, ahi, bhi, besti, bestj, bestsize). ahi - (besti + bestsize))") auto

definition find_longest_match ::
  "string \<Rightarrow> string \<Rightarrow> (char \<Rightarrow> nat list) \<Rightarrow> nat \<Rightarrow> nat \<Rightarrow> nat \<Rightarrow> nat \<Rightarrow> match" where
  "find_longest_match a b b2j alo ahi blo bhi =
     (case outer_loop a b2j blo bhi [alo..<ahi] (Map.empty, alo, blo, 0) of
        (j2len, best) \<Rightarrow> extend_fwd a b ahi bhi (extend_back a b alo blo best))"

text \<open>
  The match found lies inside the window it was searched in; the loop of
  \<open>get_matching_blocks\<close> terminates by this.
\<close>

definition row_ok :: "nat \<Rightarrow> nat \<Rightarrow> nat \<Rightarrow> (nat \<rightharpoonup> nat) \<Rightarrow> bool" where
  "row_ok alo blo i m = (\<forall>j v. m j = Some v \<longrightarrow> v + alo \<le> i \<and> v + blo \<le> j + 1)"

definition best_ok :: "nat \<Rightarrow> nat \<Rightarrow> nat \<Rightarrow> nat \<Rightarrow> match \<Rightarrow> bool" where
  "best_ok alo blo hi bhi best =
     (case best of (bi, bj, bs) \<Rightarrow>
        alo \<le> bi \<and> blo \<le> bj \<and> (bs = 0 \<longrightarrow> bi = alo \<and> bj = blo)
        \<and> (0 < bs \<longrightarrow> bi + bs \<le> hi \<and> bj + bs \<le> bhi))"

lemma best_ok_mono: "best_ok alo blo i bhi best \<Longrightarrow> i \<le> i' \<Longrightarrow> best_ok alo blo i' bhi best"
  by (auto simp: best_ok_def split: prod.splits)

lemma j2lenget_bound:
  assumes "row_ok alo blo i j2len" "alo \<le> i" "blo \<le> j"
  shows "j2lenget j2len j + 1 + alo \<le> Suc i \<and> j2lenget j2len j + 1 + blo \<le> j + 1"
  using assms by (auto simp: row_ok_def j2lenget_def split: option.splits) force+

lemma inner_loop_ok:
  "row_ok alo blo i j2len \<Longrightarrow> row_ok alo blo (Suc i) nm \<Longrightarrow> best_ok alo blo (Suc i) bhi best
   \<Longrightarrow> alo \<le> i \<Longrightarrow> inner_loop blo bhi i j2len js (nm, best) = (nm', best')
   \<Longrightarrow> row_ok alo blo (Suc i) nm' \<and> best_ok alo blo (Suc i) bhi best'"
proof (induction js arbitrary: nm best)
  case Nil
  then show ?case by simp
next
  case (Cons j js)
  obtain bi bj bs where best: "best = (bi, bj, bs)" by (cases best)
  show ?case
  proof (cases "j < blo")
    case True
    with Cons best show ?thesis by simp
  next
    case lo: False
    show ?thesis
    proof (cases "j \<ge> bhi")
      case True
      with Cons.prems lo best show ?thesis by simp
    next
      case hi: False
      define k where "k = j2lenget j2len j + 1"
      have kb: "k + alo \<le> Suc i" "k + blo \<le> j + 1"
        using j2lenget_bound[OF Cons.prems(1) Cons.prems(4), of j] lo by (auto simp: k_def)
      have nm2: "row_ok alo blo (Suc i) (nm(j \<mapsto> k))"
        using Cons.prems(2) kb by (auto simp: row_ok_def)
      have b2: "best_ok alo blo (Suc i) bhi (i + 1 - k, j + 1 - k, k)"
        using kb hi by (auto simp: best_ok_def k_def)
      show ?thesis
      proof (cases "k > bs")
        case True
        with Cons.prems(5) lo hi best
        have "inner_loop blo bhi i j2len js (nm(j \<mapsto> k), i + 1 - k, j + 1 - k, k) = (nm', best')"
          by (simp add: k_def Let_def)
        from Cons.IH[OF Cons.prems(1) nm2 b2 Cons.prems(4) this] show ?thesis .
      next
        case False
        with Cons.prems(5) lo hi best
        have "inner_loop blo bhi i j2len js (nm(j \<mapsto> k), best) = (nm', best')"
          by (simp add: k_def Let_def)
        from Cons.IH[OF Cons.prems(1) nm2 Cons.prems(3) Cons.prems(4) this] show ?thesis .
      qed
    qed
  qed
qed

lemma outer_loop_ok:
  "alo \<le> i \<Longrightarrow> i \<le> ahi \<Longrightarrow> row_ok alo blo i j2len \<Longrightarrow> best_ok alo blo i bhi best
   \<Longrightarrow> outer_loop a b2j blo bhi [i..<ahi] (j2len, best) = (m', best')
   \<Longrightarrow> best_ok alo blo ahi bhi best'"
proof (induction "ahi - i" arbitrary: i j2len best)
  case 0
  then show ?case by simp
next
  case (Suc n)
  then have lt: "i < ahi" by simp
  obtain nm b1 where step: "inner_loop blo bhi i j2len (b2j (a ! i)) (Map.empty, best) = (nm, b1)"
    by (cases "inner_loop blo bhi i j2len (b2j (a ! i)) (Map.empty, best)")
  have e: "row_ok alo blo (Suc i) Map.empty" by (simp add: row_ok_def)
  have b: "best_ok alo blo (Suc i) bhi best" using Suc.prems(4) by (rule best_ok_mono) simp
  from inner_loop_ok[OF Suc.prems(3) e b Suc.prems(1) step]
  have ok: "row_ok alo blo (Suc i) nm" "best_ok alo blo (Suc i) bhi b1" by simp_all
  have run: "outer_loop a b2j blo bhi [Suc i..<ahi] (nm, b1) = (m', best')"
    using Suc.prems(5) lt step by (simp add: upt_conv_Cons)
  have n: "n = ahi - Suc i" using Suc.hyps(2) by simp
  show ?case
    using Suc.hyps(1)[OF n _ _ ok run] Suc.prems(1) lt by simp
qed

lemma extend_back_ok:
  "extend_back a b alo blo (bi, bj, bs) = (i, j, k) \<Longrightarrow> alo \<le> bi \<Longrightarrow> blo \<le> bj
   \<Longrightarrow> alo \<le> i \<and> blo \<le> j \<and> i + k = bi + bs \<and> j + k = bj + bs \<and> bs \<le> k"
proof (induction a b alo blo "(bi, bj, bs)" arbitrary: bi bj bs rule: extend_back.induct)
  case (1 a b alo blo besti bestj bestsize)
  show ?case
  proof (cases "besti > alo \<and> bestj > blo \<and> a ! (besti - 1) = b ! (bestj - 1)")
    case True
    with "1.prems"(1)
    have "extend_back a b alo blo (besti - 1, bestj - 1, bestsize + 1) = (i, j, k)" by simp
    moreover have "alo \<le> besti - 1" "blo \<le> bestj - 1" using True by auto
    ultimately have "alo \<le> i \<and> blo \<le> j \<and> i + k = besti - 1 + (bestsize + 1)
        \<and> j + k = bestj - 1 + (bestsize + 1) \<and> bestsize + 1 \<le> k"
      using "1.hyps"[OF True] by blast
    with True show ?thesis by auto
  next
    case False
    with "1.prems" show ?thesis by auto
  qed
qed

lemma extend_fwd_ok:
  "extend_fwd a b ahi bhi (bi, bj, bs) = (i, j, k)
   \<Longrightarrow> i = bi \<and> j = bj \<and> bs \<le> k \<and> (bs < k \<longrightarrow> i + k \<le> ahi \<and> j + k \<le> bhi)"
proof (induction a b ahi bhi "(bi, bj, bs)" arbitrary: bi bj bs rule: extend_fwd.induct)
  case (1 a b ahi bhi besti bestj bestsize)
  show ?case
  proof (cases "besti + bestsize < ahi \<and> bestj + bestsize < bhi
         \<and> a ! (besti + bestsize) = b ! (bestj + bestsize)")
    case True
    with "1.prems"(1)
    have "extend_fwd a b ahi bhi (besti, bestj, bestsize + 1) = (i, j, k)" by simp
    from "1.hyps"[OF True this] True show ?thesis by auto
  next
    case False
    with "1.prems" show ?thesis by auto
  qed
qed

lemma find_longest_match_range:
  assumes "find_longest_match a b b2j alo ahi blo bhi = (i, j, k)"
  shows "alo \<le> i \<and> blo \<le> j \<and> (0 < k \<longrightarrow> i + k \<le> ahi \<and> j + k \<le> bhi)"
proof -
  obtain m bi bj bs where o: "outer_loop a b2j blo bhi [alo..<ahi] (Map.empty, alo, blo, 0) = (m, bi, bj, bs)"
    by (metis prod_cases3)
  have ok: "best_ok alo blo ahi bhi (bi, bj, bs)"
  proof (cases "alo \<le> ahi")
    case True
    have "row_ok alo blo alo Map.empty" by (simp add: row_ok_def)
    moreover have "best_ok alo blo alo bhi (alo, blo, 0)" by (simp add: best_ok_def)
    ultimately show ?thesis using outer_loop_ok[OF _ True _ _ o] by simp
  next
    case False
    with o show ?thesis by (simp add: best_ok_def)
  qed
  obtain i1 j1 k1 where eb: "extend_back a b alo blo (bi, bj, bs) = (i1, j1, k1)"
    by (metis prod_cases3)
  have ef: "extend_fwd a b ahi bhi (i1, j1, k1) = (i, j, k)"
    using assms o eb by (simp add: find_longest_match_def)
  from ok have "alo \<le> bi" "blo \<le> bj" by (simp_all add: best_ok_def)
  from extend_back_ok[OF eb this] extend_fwd_ok[OF ef] ok
  show ?thesis by (auto simp: best_ok_def)
qed

type_synonym span = "nat \<times> nat \<times> nat \<times> nat"

function matching_loop ::
  "string \<Rightarrow> string \<Rightarrow> (char \<Rightarrow> nat list) \<Rightarrow> span list \<Rightarrow> match list \<Rightarrow> match list" where
  \<comment> \<open>\<open>while queue\<close> of \<open>get_matching_blocks\<close>; the head of the list is the end of the
      Python list, which \<open>queue.pop()\<close> takes\<close>
  "matching_loop a b b2j [] matching_blocks = matching_blocks"
| "matching_loop a b b2j ((alo, ahi, blo, bhi) # queue) matching_blocks =
     (case find_longest_match a b b2j alo ahi blo bhi of
        (i, j, k) \<Rightarrow>
          if k \<noteq> 0
          then matching_loop a b b2j
                 ((if i + k < ahi \<and> j + k < bhi then [(i + k, ahi, j + k, bhi)] else [])
                  @ (if alo < i \<and> blo < j then [(alo, i, blo, j)] else []) @ queue)
                 (matching_blocks @ [(i, j, k)])
          else matching_loop a b b2j queue matching_blocks)"
  by pat_completeness auto
termination
proof (relation "measure (\<lambda>(a, b, b2j, queue, blocks).
                   sum_list (map (\<lambda>(alo, ahi, blo, bhi). 2 * (ahi - alo) + 1) queue))",
       goal_cases)
  case 1
  show ?case by simp
next
  case (2 a b b2j alo ahi blo bhi queue matching_blocks i jk j k)
  then have "find_longest_match a b b2j alo ahi blo bhi = (i, j, k)" by simp
  from find_longest_match_range[OF this] 2(3) show ?case by auto
next
  case 3
  then show ?case by simp
qed

fun merge_adjacent :: "match list \<Rightarrow> match list \<times> match \<Rightarrow> match list \<times> match" where
  \<comment> \<open>\<open>for i2, j2, k2 in matching_blocks\<close> on the state \<open>(non_adjacent, (i1, j1, k1))\<close>\<close>
  "merge_adjacent [] st = st"
| "merge_adjacent ((i2, j2, k2) # ms) (non_adjacent, i1, j1, k1) =
     (if i1 + k1 = i2 \<and> j1 + k1 = j2
      then merge_adjacent ms (non_adjacent, i1, j1, k1 + k2)
      else merge_adjacent ms
             (if k1 \<noteq> 0 then non_adjacent @ [(i1, j1, k1)] else non_adjacent, i2, j2, k2))"

definition get_matching_blocks :: "string \<Rightarrow> string \<Rightarrow> match list" where
  "get_matching_blocks a b =
     (let la = length a; lb = length b;
          matching_blocks = sort (matching_loop a b (chain_b b) [(0, la, 0, lb)] [])
      in case merge_adjacent matching_blocks ([], 0, 0, 0) of
           (non_adjacent, i1, j1, k1) \<Rightarrow>
             (if k1 \<noteq> 0 then non_adjacent @ [(i1, j1, k1)] else non_adjacent) @ [(la, lb, 0)])"

definition calculate_ratio :: "nat \<Rightarrow> nat \<Rightarrow> rat" where
  \<comment> \<open>\<open>_calculate_ratio\<close>: \<open>2.0 * matches / length\<close> if \<open>length\<close> is not zero, else
      \<open>1.0\<close>; the float is read as the rational it rounds\<close>
  "calculate_ratio matches n =
     (if n \<noteq> 0 then 2 * of_nat matches / of_nat n else 1)"

definition ratio :: "string \<Rightarrow> string \<Rightarrow> rat" where
  \<comment> \<open>\<open>SequenceMatcher(None, a, b).ratio()\<close>\<close>
  "ratio a b =
     calculate_ratio (sum_list (map (\<lambda>(i, j, k). k) (get_matching_blocks a b)))
       (length a + length b)"

definition text_similarity :: "string \<Rightarrow> string \<Rightarrow> rat" where
  "text_similarity text1 text2 = ratio (normalize text1) (normalize text2)"

section \<open>The pipeline: \<open>create_audiobook_from_pickle\<close>\<close>

text \<open>
  The file system is a map from paths to contents, and it is the state the pipeline
  changes.  The collaborators (the speech synthesiser, the speech recogniser, the audio
  library, the muxing tool) are parameters, and each may fail.  The synthesiser and
  the recogniser are functions of the number of the synthesis call they serve, so that a
  retry may get another answer than the attempt before it.  The counter \<open>tts_calls\<close> numbers the calls of
  \<open>tts.tts_to_file\<close>.
\<close>

type_synonym audio = "int list"

datatype contents = Wav audio | M4a audio | Text string | M4b | Partial

datatype error =
    NameError | FileNotFoundError | CouldntDecodeError | ExportError | CalledProcessError

record world =
  fs :: "string \<rightharpoonup> contents"
  tts_calls :: nat

record env =
  tts_to_file :: "nat \<Rightarrow> string \<Rightarrow> contents option \<times> bool"
    \<comment> \<open>\<open>tts.tts_to_file\<close>: what it leaves at \<open>file_path\<close> (\<open>None\<close>: nothing
        written), and whether it raises\<close>
  transcribe :: "nat \<Rightarrow> audio \<Rightarrow> string option"
    \<comment> \<open>\<open>whisper_model.transcribe(audio_file)["text"]\<close>, or \<open>None\<close> when it raises\<close>
  duration :: "audio \<Rightarrow> nat"
    \<comment> \<open>\<open>len(segment)\<close>: the length of an \<open>AudioSegment\<close> in milliseconds\<close>
  export_m4a :: "audio \<Rightarrow> contents option \<times> bool"
    \<comment> \<open>\<open>final_audio.export\<close>: what it leaves at the path, and whether it raises\<close>
  run_ffmpeg :: "contents option \<Rightarrow> contents option \<Rightarrow> contents option \<times> bool"
    \<comment> \<open>\<open>subprocess.run(cmd, check=True)\<close> on the two input files: what it leaves at
        \<open>output_file\<close> (\<open>None\<close>: nothing written), and whether it raises\<close>

function str_nat :: "nat \<Rightarrow> string" where
  \<comment> \<open>the decimal digits of a non-negative \<open>int\<close>, as an f-string prints it\<close>
  "str_nat n = (if n < 10 then [char_of (48 + n)] else str_nat (n div 10) @ [char_of (48 + n mod 10)])"
  by pat_completeness auto
termination
  by (relation "measure id") auto

definition temp_name :: "string \<Rightarrow> nat \<Rightarrow> nat \<Rightarrow> string" where
  \<comment> \<open>\<open>f"temp_{chapter['chapter_title']}_{i}_attempt_{attempt}.wav"\<close>\<close>
  "temp_name title i attempt =
     ''temp_'' @ title @ ''_'' @ str_nat i @ ''_attempt_'' @ str_nat attempt @ ''.wav''"

definition put_file :: "string \<Rightarrow> contents option \<Rightarrow> world \<Rightarrow> world" where
  \<comment> \<open>what a collaborator leaves at a path; \<open>None\<close>: it wrote nothing\<close>
  "put_file p f w = (case f of None \<Rightarrow> w | Some c \<Rightarrow> w\<lparr>fs := (fs w)(p \<mapsto> c)\<rparr>)"

definition remove_if_exists :: "string \<Rightarrow> world \<Rightarrow> world" where
  \<comment> \<open>\<open>if os.path.exists(p): os.remove(p)\<close>\<close>
  "remove_if_exists p w = (if fs w p \<noteq> None then w\<lparr>fs := (fs w)(p := None)\<rparr> else w)"

definition from_wav :: "world \<Rightarrow> string \<Rightarrow> error + audio" where
  \<comment> \<open>\<open>AudioSegment.from_wav(p)\<close>\<close>
  "from_wav w p =
     (case fs w p of
        None \<Rightarrow> Inl FileNotFoundError
      | Some (Wav a) \<Rightarrow> Inr a
      | Some _ \<Rightarrow> Inl CouldntDecodeError)"

definition SIMILARITY_THRESHOLD :: rat where
  "SIMILARITY_THRESHOLD = 85 / 100"

definition verify_audio_quality ::
  "env \<Rightarrow> nat \<Rightarrow> world \<Rightarrow> string \<Rightarrow> string \<Rightarrow> (bool \<times> rat) option" where
  \<comment> \<open>\<open>None\<close> when the transcription raises\<close>
  "verify_audio_quality e n w audio_file original_text =
     (case fs w audio_file of
        Some (Wav a) \<Rightarrow>
          (case transcribe e n a of
             None \<Rightarrow> None
           | Some transcribed_text \<Rightarrow>
               let similarity = text_similarity original_text transcribed_text
               in Some (similarity \<ge> SIMILARITY_THRESHOLD, similarity))
      | _ \<Rightarrow> None)"

record attempt_state =
  chapter_audio :: audio
  attempt :: nat
  chunk_generated :: bool
  temp_wav :: "string option"   \<comment> \<open>\<open>None\<close>: the name is not bound yet\<close>

definition attempt_body ::
  "env \<Rightarrow> string \<Rightarrow> nat \<Rightarrow> string \<Rightarrow> world \<times> attempt_state \<Rightarrow> world \<times> attempt_state" where
  \<comment> \<open>one pass of the \<open>while\<close> loop (lines 163-192): \<open>try\<close>, \<open>except Exception\<close>,
      \<open>finally\<close>\<close>
  "attempt_body e title i chunk = (\<lambda>(w, st).
     let tw = temp_name title i (attempt st);
         n = tts_calls w;
         w1 = w\<lparr>tts_calls := Suc n\<rparr>;
         failed = st\<lparr>attempt := attempt st + 1, temp_wav := Some tw\<rparr>
     in case tts_to_file e n chunk of
          (left, True) \<Rightarrow> (remove_if_exists tw (put_file tw left w1), failed)
        | (left, False) \<Rightarrow>
            let w2 = put_file tw left w1
            in (case verify_audio_quality e n w2 tw chunk of
                  None \<Rightarrow> (remove_if_exists tw w2, failed)
                | Some (is_good_quality, similarity) \<Rightarrow>
                    if is_good_quality
                    then (case from_wav w2 tw of
                            Inl err \<Rightarrow> (remove_if_exists tw w2, failed)
                          | Inr chunk_audio \<Rightarrow>
                              (remove_if_exists tw w2,
                               st\<lparr>chapter_audio := chapter_audio st @ chunk_audio,
                                  chunk_generated := True, temp_wav := Some tw\<rparr>))
                    else (remove_if_exists tw w2, failed)))"

lemma attempt_body_progress:
  assumes "attempt_body e title i chunk (w, st) = (w', st')"
  shows "(chunk_generated st' \<and> attempt st' = attempt st)
         \<or> (chunk_generated st' = chunk_generated st \<and> attempt st' = attempt st + 1)"
  using assms
  by (auto simp: attempt_body_def Let_def
           split: option.splits if_splits sum.splits prod.splits bool.splits)

function attempts_loop ::
  "env \<Rightarrow> string \<Rightarrow> nat \<Rightarrow> string \<Rightarrow> nat \<Rightarrow> world \<times> attempt_state \<Rightarrow> world \<times> attempt_state" where
  \<comment> \<open>\<open>while attempt < max_attempts and not chunk_generated\<close>\<close>
  "attempts_loop e title i chunk max_attempts (w, st) =
     (if attempt st < max_attempts \<and> \<not> chunk_generated st
      then attempts_loop e title i chunk max_attempts (attempt_body e title i chunk (w, st))
      else (w, st))"
  by pat_completeness auto
termination
proof (relation "measure (\<lambda>(e, title, i, chunk, max_attempts, w, st).
          if chunk_generated st then 0 else 1 + (max_attempts - attempt st))", goal_cases)
  case 1
  show ?case by simp
next
  case (2 e title i chunk max_attempts w st)
  obtain w' st' where b: "attempt_body e title i chunk (w, st) = (w', st')"
    by (cases "attempt_body e title i chunk (w, st)")
  from attempt_body_progress[OF b] 2 b show ?case by auto
qed

definition process_chunk ::
  "env \<Rightarrow> string \<Rightarrow> nat \<Rightarrow> string \<Rightarrow> world \<times> audio \<Rightarrow> (error + audio) \<times> world" where
  \<comment> \<open>the body of \<open>for i, chunk in enumerate(text_chunks)\<close> (lines 158-198); the
      result is the new \<open>chapter_audio\<close>, or the exception that leaves the loop\<close>
  "process_chunk e title i chunk = (\<lambda>(w, ca).
     let max_attempts = 3
     in case attempts_loop e title i chunk max_attempts
               (w, \<lparr>chapter_audio = ca, attempt = 0, chunk_generated = False, temp_wav = None\<rparr>) of
          (w', st) \<Rightarrow>
            if \<not> chunk_generated st
            then (case temp_wav st of
                    None \<Rightarrow> (Inl NameError, w')
                  | Some tw \<Rightarrow>
                      (case from_wav w' tw of
                         Inl err \<Rightarrow> (Inl err, w')
                       | Inr chunk_audio \<Rightarrow> (Inr (chapter_audio st @ chunk_audio), w')))
            else (Inr (chapter_audio st), w'))"

fun chunks_loop ::
  "env \<Rightarrow> string \<Rightarrow> (nat \<times> string) list \<Rightarrow> world \<times> audio \<Rightarrow> (error + audio) \<times> world" where
  "chunks_loop e title [] (w, ca) = (Inr ca, w)"
| "chunks_loop e title ((i, chunk) # rest) (w, ca) =
     (case process_chunk e title i chunk (w, ca) of
        (Inl err, w') \<Rightarrow> (Inl err, w')
      | (Inr ca', w') \<Rightarrow> chunks_loop e title rest (w', ca'))"

definition enumerate_py :: "'a list \<Rightarrow> (nat \<times> 'a) list" where
  "enumerate_py xs = zip [0..<length xs] xs"

record chapter_record =
  chapter_title :: string
  chapter_content :: "string list"

record timeline_entry =
  start_ms :: nat
  end_ms :: nat
  title :: string

record assembly =
  final_audio :: audio
  chapters_info :: "timeline_entry list"
  current_offset :: nat

definition chapter_text :: "chapter_record \<Rightarrow> string" where
  \<comment> \<open>\<open>" ".join(chapter["chapter_content"]).strip()\<close>\<close>
  "chapter_text ch = strip (join '' '' (chapter_content ch))"

definition skipped :: "chapter_record \<Rightarrow> bool" where
  \<comment> \<open>the two \<open>continue\<close> tests (lines 146-151)\<close>
  "skipped ch = (chapter_content ch = [] \<or> chapter_text ch = [])"

definition synthesize_chapter :: "env \<Rightarrow> chapter_record \<Rightarrow> world \<Rightarrow> (error + audio) \<times> world" where
  \<comment> \<open>lines 154-198: the chunks of the chapter, and the loop over them from an empty
      \<open>chapter_audio\<close>\<close>
  "synthesize_chapter e ch w =
     chunks_loop e (chapter_title ch)
       (enumerate_py (split_into_chunks (chapter_text ch) 250)) (w, [])"

definition chapter_body ::
  "env \<Rightarrow> chapter_record \<Rightarrow> world \<times> assembly \<Rightarrow> (error + assembly) \<times> world" where
  \<comment> \<open>the body of \<open>for chapter in chapters\<close> (lines 146-209); \<open>ca\<close> is the
      finished \<open>chapter_audio\<close>\<close>
  "chapter_body e ch = (\<lambda>(w, st).
     if skipped ch then (Inr st, w)
     else let chapter_start = current_offset st
          in case synthesize_chapter e ch w of
               (Inl err, w') \<Rightarrow> (Inl err, w')
             | (Inr ca, w') \<Rightarrow>
                 let chapter_end = current_offset st + duration e ca
                 in (Inr \<lparr>final_audio = final_audio st @ ca,
                          chapters_info = chapters_info st
                            @ [\<lparr>start_ms = chapter_start, end_ms = chapter_end,
                                title = chapter_title ch\<rparr>],
                          current_offset = chapter_end\<rparr>, w'))"

fun chapters_loop ::
  "env \<Rightarrow> chapter_record list \<Rightarrow> world \<times> assembly \<Rightarrow> (error + assembly) \<times> world" where
  "chapters_loop e [] (w, st) = (Inr st, w)"
| "chapters_loop e (ch # chs) (w, st) =
     (case chapter_body e ch (w, st) of
        (Inl err, w') \<Rightarrow> (Inl err, w')
      | (Inr st', w') \<Rightarrow> chapters_loop e chs (w', st'))"

definition chapter_stanza :: "timeline_entry \<Rightarrow> string" where
  \<comment> \<open>the record written for one chapter (lines 87-94); \<open>int(ms / 1000)\<close> is
      \<open>ms div 1000\<close> on the non-negative offsets\<close>
  "chapter_stanza ch =
     (let start_time = start_ms ch div 1000; end_time = end_ms ch div 1000
      in ''[CHAPTER]'' @ [CHR 0x0A] @ ''TIMEBASE=1/1'' @ [CHR 0x0A]
         @ ''START='' @ str_nat start_time @ [CHR 0x0A]
         @ ''END='' @ str_nat end_time @ [CHR 0x0A]
         @ ''title='' @ title ch @ [CHR 0x0A, CHR 0x0A])"

definition create_chapter_file :: "timeline_entry list \<Rightarrow> string \<Rightarrow> world \<Rightarrow> world" where
  \<comment> \<open>\<open>infos\<close> is the parameter \<open>chapters_info\<close>\<close>
  "create_chapter_file infos output_file w =
     w\<lparr>fs := (fs w)(''chapters.txt'' \<mapsto> Text (concat (map chapter_stanza infos)))\<rparr>"

definition export_step ::
  "env \<Rightarrow> audio \<Rightarrow> timeline_entry list \<Rightarrow> string \<Rightarrow> world \<Rightarrow> (error + unit) \<times> world" where
  \<comment> \<open>lines 211-243: \<open>try\<close>, the re-raising \<open>except\<close>, and \<open>finally\<close>\<close>
  "export_step e audio info output_file w =
     (let temp_audio = ''temp_audiobook.m4a'';
          (r, w') =
            (case export_m4a e audio of
               (left, True) \<Rightarrow> (Inl ExportError, put_file temp_audio left w)
             | (left, False) \<Rightarrow>
                 let w1 = put_file temp_audio left w;
                     w2 = create_chapter_file info ''chapters.txt'' w1
                 in (case run_ffmpeg e (fs w2 temp_audio) (fs w2 ''chapters.txt'') of
                       (out, True) \<Rightarrow> (Inl CalledProcessError, put_file output_file out w2)
                     | (out, False) \<Rightarrow> (Inr (), put_file output_file out w2)))
      in (r, remove_if_exists ''chapters.txt'' (remove_if_exists temp_audio w')))"

definition create_audiobook_from_pickle ::
  "env \<Rightarrow> chapter_record list \<Rightarrow> string \<Rightarrow> world \<Rightarrow> (error + unit) \<times> world" where
  \<comment> \<open>\<open>chapters\<close> is the list unpickled from \<open>pickle_path\<close>\<close>
  "create_audiobook_from_pickle e chapters output_file w =
     (case chapters_loop e chapters
             (w, \<lparr>final_audio = [], chapters_info = [], current_offset = 0\<rparr>) of
        (Inl err, w') \<Rightarrow> (Inl err, w')
      | (Inr st, w') \<Rightarrow> export_step e (final_audio st) (chapters_info st) output_file w')"

section \<open>Predicates and sample collaborators for the statements\<close>

definition budget :: "nat \<Rightarrow> attempt_state \<Rightarrow> nat" where
  \<comment> \<open>the passes the \<open>while\<close> loop can still make\<close>
  "budget max_attempts st = (if chunk_generated st then 0 else max_attempts - attempt st)"

definition always_low :: "env \<Rightarrow> string \<Rightarrow> bool" where
  \<comment> \<open>every synthesis of the chunk is transcribed to a text of similarity 0.40\<close>
  "always_low e chunk =
     (\<forall>n. \<exists>a t. tts_to_file e n chunk = (Some (Wav a), False) \<and> transcribe e n a = Some t
            \<and> text_similarity chunk t = 40 / 100)"

definition blank :: "chapter_record \<Rightarrow> bool" where
  \<comment> \<open>every content line is empty or whitespace only\<close>
  "blank ch = (\<forall>line \<in> set (chapter_content ch). \<forall>c \<in> set line. isspace c)"

definition garbage_env :: env where
  \<comment> \<open>a synthesiser whose output is always transcribed as \<open>"axy"\<close>\<close>
  "garbage_env = \<lparr>tts_to_file = (\<lambda>n t. (Some (Wav [1, 2]), False)), transcribe = (\<lambda>n a. Some ''axy''),
     duration = length, export_m4a = (\<lambda>a. (Some (M4a a), False)),
     run_ffmpeg = (\<lambda>a c. (Some M4b, False))\<rparr>"

definition faithful_env :: env where
  \<comment> \<open>a synthesiser whose output is transcribed back to the text it was given\<close>
  "faithful_env = \<lparr>tts_to_file = (\<lambda>n t. (Some (Wav (map (\<lambda>c. int (of_char c)) t)), False)),
     transcribe = (\<lambda>n a. Some (map (\<lambda>x. char_of (nat x)) a)),
     duration = length, export_m4a = (\<lambda>a. (Some (M4a a), False)),
     run_ffmpeg = (\<lambda>a c. (Some M4b, False))\<rparr>"

definition empty_world :: world where
  "empty_world = \<lparr>fs = Map.empty, tts_calls = 0\<rparr>"

definition initial_assembly :: assembly where
  \<comment> \<open>lines 138-142: an empty waveform, no entries, offset 0\<close>
  "initial_assembly = \<lparr>final_audio = [], chapters_info = [], current_offset = 0\<rparr>"

fun assembled :: "env \<Rightarrow> chapter_record list \<Rightarrow> world \<Rightarrow> audio list" where
  \<comment> \<open>the finished \<open>chapter_audio\<close> of each chapter that is not skipped, in the order
      of the run\<close>
  "assembled e [] w = []"
| "assembled e (ch # chs) w =
     (if skipped ch then assembled e chs w
      else case synthesize_chapter e ch w of
             (Inl err, w') \<Rightarrow> []
           | (Inr ca, w') \<Rightarrow> ca # assembled e chs w')"

fun chained :: "nat \<Rightarrow> timeline_entry list \<Rightarrow> nat list \<Rightarrow> bool" where
  \<comment> \<open>entries that start at \<open>off\<close>, follow one another without a gap, and last the given
      durations\<close>
  "chained off [] [] = True"
| "chained off (x # xs) (d # ds) =
     (start_ms x = off \<and> end_ms x = off + d \<and> chained (end_ms x) xs ds)"
| "chained off _ _ = False"

definition two_chapters :: "chapter_record list" where
  "two_chapters = [\<lparr>chapter_title = ''One'', chapter_content = [''Hello world.'']\<rparr>,
                   \<lparr>chapter_title = ''Two'', chapter_content = [''Bye.'']\<rparr>]"

definition matched :: "match list \<Rightarrow> nat" where
  \<comment> \<open>\<open>sum(triple[-1] for triple in blocks)\<close>\<close>
  "matched blocks = sum_list (map (\<lambda>(i, j, k). k) blocks)"

definition room_a :: "span list \<Rightarrow> nat" where
  \<comment> \<open>the characters of \<open>a\<close> inside the windows still queued\<close>
  "room_a queue = sum_list (map (\<lambda>(alo, ahi, blo, bhi). ahi - alo) queue)"

definition room_b :: "span list \<Rightarrow> nat" where
  \<comment> \<open>the characters of \<open>b\<close> inside the windows still queued\<close>
  "room_b queue = sum_list (map (\<lambda>(alo, ahi, blo, bhi). bhi - blo) queue)"

fun drun :: "string \<Rightarrow> nat \<Rightarrow> nat" where
  \<comment> \<open>the number of consecutive characters that are not popular, ending at position
      \<open>i\<close>\<close>
  "drun s 0 = (if popular s (s ! 0) then 0 else 1)"
| "drun s (Suc i) = (if popular s (s ! Suc i) then 0 else Suc (drun s i))"

definition cur_ok :: "string \<Rightarrow> nat \<Rightarrow> (nat \<rightharpoonup> nat) \<Rightarrow> bool" where
  \<comment> \<open>the entries of \<open>newj2len\<close> while row \<open>i\<close> of a string against itself is read\<close>
  "cur_ok s i m = (\<forall>j v. m j = Some v \<longrightarrow> v \<le> drun s i \<and> v \<le> drun s j)"

definition prev_ok :: "string \<Rightarrow> nat \<Rightarrow> (nat \<rightharpoonup> nat) \<Rightarrow> bool" where
  \<comment> \<open>\<open>j2len\<close> when row \<open>i\<close> of a string against itself begins\<close>
  "prev_ok s i m =
     ((\<forall>j v. m j = Some v \<longrightarrow> 0 < i \<and> v \<le> drun s (i - 1) \<and> v \<le> drun s j)
      \<and> (0 < i \<and> \<not> popular s (s ! (i - 1)) \<longrightarrow> m (i - 1) = Some (drun s (i - 1))))"

definition is_word :: "string \<Rightarrow> bool" where
  \<comment> \<open>a non-empty string without whitespace\<close>
  "is_word w = (w \<noteq> [] \<and> (\<forall>c \<in> set w. \<not> isspace c))"

definition chunk_ok :: "int \<Rightarrow> string \<Rightarrow> bool" where
  \<comment> \<open>empty, or within the bound, or a single word\<close>
  "chunk_ok max_length c = (c = [] \<or> len c \<le> max_length \<or> is_word c)"

section \<open>Segmenter: the worked example and two defects\<close>

text \<open>
  C7, as the code has it: on \<open>"Hello world. This is a test."\<close> with
  \<open>max_length = 15\<close> the second sentence is exactly 15 characters long, the test
  \<open>len(sentence) > max_length\<close> fails, and the sentence is emitted whole: the result is
  \<open>["Hello world.", "This is a test."]\<close>.
\<close>

theorem split_into_chunks_example:
  "split_into_chunks ''Hello world. This is a test.'' 15
     = [''Hello world.'', ''This is a test.'']"
  by code_simp

text \<open>
  C7, as the specification states it: the result is not
  \<open>["Hello world.", "This is a", "test."]\<close>.
\<close>

theorem three_chunk_expectation_refuted:
  "split_into_chunks ''Hello world. This is a test.'' 15
     \<noteq> [''Hello world.'', ''This is a'', ''test.'']"
  by code_simp

text \<open>
  C2 at a failing input: a single word longer than \<open>max_length\<close> makes the word loop
  flush its still empty \<open>temp_chunk\<close> (line 45 and line 76 append without the test
  \<open>if temp_chunk\<close> that lines 47, 55, 60 and 78 make), so empty chunks are emitted,
  although the specification promises non-empty chunks.
\<close>

theorem split_into_chunks_emits_empty_chunks:
  "split_into_chunks ''abcdefghij'' 5 = [[], [], ''abcdefghij.,'']"
  by code_simp

text \<open>
  C3 at a failing input: a sentence longer than \<open>max_length\<close> is split and appended to
  \<open>chunks\<close> at once (lines 34-50) while the shorter sentences before it still wait in
  \<open>current_chunk\<close>, which is flushed only later (lines 55-61).  The words of the
  chunks then come in another order than the words of the text.
\<close>

theorem split_into_chunks_reorders:
  "split_into_chunks ''Hi. aaaa bbbb cccc.'' 10 = [''aaaa bbbb'', ''cccc.,'', ''Hi.'']
   \<and> concat (map py_split (split_into_chunks ''Hi. aaaa bbbb cccc.'' 10))
       = [''aaaa'', ''bbbb'', ''cccc.,'', ''Hi.'']
   \<and> py_split ''Hi. aaaa bbbb cccc.'' = [''Hi.'', ''aaaa'', ''bbbb'', ''cccc.'']"
  by code_simp

subsection \<open>What the final pass does guarantee\<close>

text \<open>
  Apart from the empty chunks, the bound holds: a chunk that is neither empty nor within
  \<open>max_length\<close> is a single word.
\<close>

lemma split_ws_words:
  "\<forall>c \<in> set acc. \<not> isspace c \<Longrightarrow> \<forall>w \<in> set (split_ws acc s). is_word w"
proof (induction s arbitrary: acc)
  case Nil
  then show ?case by (simp add: is_word_def)
next
  case (Cons a s)
  have e: "\<forall>w \<in> set (split_ws [] s). is_word w" using Cons.IH[of "[]"] by simp
  show ?case
  proof (cases "isspace a")
    case True
    have "is_word (rev acc)" if "acc \<noteq> []" using that Cons.prems by (simp add: is_word_def)
    with True e show ?thesis by simp
  next
    case False
    then have "\<forall>c \<in> set (a # acc). \<not> isspace c" using Cons.prems by simp
    from Cons.IH[OF this] False show ?thesis by simp
  qed
qed

lemma py_split_words: "\<forall>w \<in> set (py_split s). is_word w"
  using split_ws_words[of "[]" s] by (simp add: py_split_def)

lemma strip_word: "is_word w \<Longrightarrow> strip w = w"
proof -
  assume w: "is_word w"
  then have 1: "dropWhile isspace w = w"
    by (cases w) (auto simp: is_word_def)
  from w have "dropWhile isspace (rev w) = rev w"
    by (cases "rev w") (auto simp: is_word_def)
  with 1 show ?thesis by (simp add: strip_def)
qed

lemma len_strip_le: "len (strip s) \<le> len s"
proof -
  have "length (dropWhile isspace (rev (dropWhile isspace s))) \<le> length (rev (dropWhile isspace s))"
    by (rule length_dropWhile_le)
  also have "\<dots> \<le> length s" by (simp add: length_dropWhile_le)
  finally show ?thesis by (simp add: strip_def len_def)
qed

lemma strip_empty: "strip [] = []"
  by (simp add: strip_def)

lemma chunk_ok_strip: "chunk_ok m c \<Longrightarrow> chunk_ok m (strip c)"
  unfolding chunk_ok_def
  using len_strip_le[of c] by (auto simp: strip_word strip_empty)

lemma pack_words_ok:
  "\<forall>w \<in> set ws. is_word w \<Longrightarrow> \<forall>c \<in> set chunks. chunk_ok m c \<Longrightarrow> chunk_ok m temp
   \<Longrightarrow> pack_words m chunks temp ws = (chunks', temp')
   \<Longrightarrow> (\<forall>c \<in> set chunks'. chunk_ok m c) \<and> chunk_ok m temp'"
proof (induction ws arbitrary: chunks temp)
  case Nil
  then show ?case by simp
next
  case (Cons w ws)
  have ww: "is_word w" and rest: "\<forall>w \<in> set ws. is_word w" using Cons.prems(1) by simp_all
  show ?case
  proof (cases "len temp + len w + 1 \<le> m")
    case True
    let ?t = "if temp \<noteq> [] then temp @ '' '' @ w else w"
    have "len ?t \<le> m" using True by (auto simp: len_def)
    then have ok: "chunk_ok m ?t" by (simp add: chunk_ok_def)
    have run: "pack_words m chunks ?t ws = (chunks', temp')"
      using Cons.prems(4) True by simp
    from Cons.IH[OF rest Cons.prems(2) ok run] show ?thesis .
  next
    case False
    have c: "\<forall>c \<in> set (chunks @ [strip temp]). chunk_ok m c"
      using Cons.prems(2) chunk_ok_strip[OF Cons.prems(3)] by simp
    have ok: "chunk_ok m w" using ww by (simp add: chunk_ok_def)
    have run: "pack_words m (chunks @ [strip temp]) w ws = (chunks', temp')"
      using Cons.prems(4) False by simp
    from Cons.IH[OF rest c ok run] show ?thesis .
  qed
qed

lemma split_words_ok:
  assumes "\<forall>c \<in> set chunks. chunk_ok m c"
  shows "\<forall>c \<in> set (split_words m chunks part). chunk_ok m c"
proof -
  obtain chunks' temp' where p: "pack_words m chunks [] (py_split part) = (chunks', temp')"
    by (cases "pack_words m chunks [] (py_split part)")
  have "chunk_ok m []" by (simp add: chunk_ok_def)
  from pack_words_ok[OF py_split_words assms this p]
  have "\<forall>c \<in> set chunks'. chunk_ok m c" "chunk_ok m temp'" by simp_all
  with p chunk_ok_strip[of m temp'] show ?thesis by (simp add: split_words_def)
qed

lemma final_loop_ok:
  "\<forall>c \<in> set final_chunks. chunk_ok m c
   \<Longrightarrow> \<forall>c \<in> set (final_loop m final_chunks chunks). chunk_ok m c"
proof (induction chunks arbitrary: final_chunks)
  case Nil
  then show ?case by simp
next
  case (Cons chunk chunks)
  show ?case
  proof (cases "len chunk \<le> m")
    case True
    have "\<forall>c \<in> set (final_chunks @ [chunk]). chunk_ok m c"
      using Cons.prems True by (simp add: chunk_ok_def)
    from Cons.IH[OF this] True show ?thesis by simp
  next
    case False
    from Cons.IH[OF split_words_ok[OF Cons.prems, of chunk]] False show ?thesis by simp
  qed
qed

lemma split_into_chunks_bound:
  "\<forall>c \<in> set (split_into_chunks text max_length).
     c = [] \<or> len c \<le> max_length \<or> is_word c"
proof -
  have f: "\<forall>c \<in> set (final_loop max_length [] chunks). chunk_ok max_length c" for chunks
    by (rule final_loop_ok) simp
  have "\<forall>c \<in> set (split_into_chunks text max_length). chunk_ok max_length c"
    unfolding split_into_chunks_def
    by (cases "sentence_loop max_length [] [] (sentences_of text)") (simp add: f)
  then show ?thesis by (simp add: chunk_ok_def)
qed

section \<open>The synthesis-verification loop\<close>

lemma tts_calls_remove_if_exists [simp]: "tts_calls (remove_if_exists p w) = tts_calls w"
  by (simp add: remove_if_exists_def)

lemma tts_calls_put_file [simp]: "tts_calls (put_file p f w) = tts_calls w"
  by (simp add: put_file_def split: option.splits)

lemma fs_remove_if_exists [simp]: "fs (remove_if_exists p w) = (fs w)(p := None)"
  by (auto simp: remove_if_exists_def)

lemma attempt_body_calls:
  "tts_calls (fst (attempt_body e ttl i chunk (w, st))) = Suc (tts_calls w)"
  by (simp add: attempt_body_def Let_def
           split: option.splits sum.splits prod.splits bool.splits)

lemma attempt_body_temp_removed:
  "fs (fst (attempt_body e ttl i chunk (w, st))) (temp_name ttl i (attempt st)) = None"
  by (simp add: attempt_body_def Let_def
           split: option.splits sum.splits prod.splits bool.splits)

lemma attempt_body_temp_wav:
  "temp_wav (snd (attempt_body e ttl i chunk (w, st))) = Some (temp_name ttl i (attempt st))"
  by (simp add: attempt_body_def Let_def
           split: option.splits sum.splits prod.splits bool.splits)

lemma attempt_body_dom:
  "dom (fs (fst (attempt_body e ttl i chunk (w, st)))) \<subseteq> dom (fs w)"
  by (auto simp: attempt_body_def Let_def put_file_def
           split: option.splits sum.splits prod.splits bool.splits if_splits)

lemma attempts_loop_calls:
  "attempts_loop e ttl i chunk max_attempts (w, st) = (w', st')
   \<Longrightarrow> tts_calls w' \<le> tts_calls w + budget max_attempts st"
proof (induction e ttl i chunk max_attempts "(w, st)" arbitrary: w st
       rule: attempts_loop.induct)
  case (1 e ttl i chunk max_attempts w st)
  show ?case
  proof (cases "attempt st < max_attempts \<and> \<not> chunk_generated st")
    case True
    obtain w1 st1 where b: "attempt_body e ttl i chunk (w, st) = (w1, st1)"
      by (cases "attempt_body e ttl i chunk (w, st)")
    have run: "attempts_loop e ttl i chunk max_attempts (w1, st1) = (w', st')"
      using "1.prems" True b by simp
    have "tts_calls w' \<le> tts_calls w1 + budget max_attempts st1"
      using "1.hyps"[OF True b run] .
    moreover have "tts_calls w1 = Suc (tts_calls w)"
      using attempt_body_calls[of e ttl i chunk w st] b by simp
    moreover have "Suc (budget max_attempts st1) \<le> budget max_attempts st"
      using attempt_body_progress[OF b] True by (auto simp: budget_def)
    ultimately show ?thesis by simp
  next
    case False
    with "1.prems" show ?thesis by simp
  qed
qed

lemma attempts_loop_dom:
  "attempts_loop e ttl i chunk max_attempts (w, st) = (w', st')
   \<Longrightarrow> dom (fs w') \<subseteq> dom (fs w)"
proof (induction e ttl i chunk max_attempts "(w, st)" arbitrary: w st
       rule: attempts_loop.induct)
  case (1 e ttl i chunk max_attempts w st)
  show ?case
  proof (cases "attempt st < max_attempts \<and> \<not> chunk_generated st")
    case True
    obtain w1 st1 where b: "attempt_body e ttl i chunk (w, st) = (w1, st1)"
      by (cases "attempt_body e ttl i chunk (w, st)")
    have run: "attempts_loop e ttl i chunk max_attempts (w1, st1) = (w', st')"
      using "1.prems" True b by simp
    have "dom (fs w') \<subseteq> dom (fs w1)"
      using "1.hyps"[OF True b run] .
    moreover have "dom (fs w1) \<subseteq> dom (fs w)"
      using attempt_body_dom[of e ttl i chunk w st] b by simp
    ultimately show ?thesis by blast
  next
    case False
    with "1.prems" show ?thesis by simp
  qed
qed

text \<open>After the loop the file named by \<open>temp_wav\<close> is gone, whatever happened.\<close>

lemma attempts_loop_temp_gone:
  "attempts_loop e ttl i chunk max_attempts (w, st) = (w', st')
   \<Longrightarrow> (\<forall>tw. temp_wav st = Some tw \<longrightarrow> fs w tw = None)
   \<Longrightarrow> (\<forall>tw. temp_wav st' = Some tw \<longrightarrow> fs w' tw = None)"
proof (induction e ttl i chunk max_attempts "(w, st)" arbitrary: w st
       rule: attempts_loop.induct)
  case (1 e ttl i chunk max_attempts w st)
  show ?case
  proof (cases "attempt st < max_attempts \<and> \<not> chunk_generated st")
    case True
    obtain w1 st1 where b: "attempt_body e ttl i chunk (w, st) = (w1, st1)"
      by (cases "attempt_body e ttl i chunk (w, st)")
    have run: "attempts_loop e ttl i chunk max_attempts (w1, st1) = (w', st')"
      using "1.prems" True b by simp
    have "\<forall>tw. temp_wav st1 = Some tw \<longrightarrow> fs w1 tw = None"
      using attempt_body_temp_wav[of e ttl i chunk w st]
            attempt_body_temp_removed[of e ttl i chunk w st] b by simp
    from "1.hyps"[OF True b run this] show ?thesis .
  next
    case False
    with "1.prems" show ?thesis by simp
  qed
qed

lemma process_chunk_fallback_raises:
  assumes "process_chunk e ttl i chunk (w, ca) = (r, w')"
  shows "(\<exists>w1 st. attempts_loop e ttl i chunk 3
            (w, \<lparr>chapter_audio = ca, attempt = 0, chunk_generated = False, temp_wav = None\<rparr>) = (w1, st)
          \<and> (chunk_generated st \<longrightarrow> r = Inr (chapter_audio st))
          \<and> (\<not> chunk_generated st \<longrightarrow> r = Inl FileNotFoundError \<or> r = Inl NameError))"
proof -
  let ?st0 = "\<lparr>chapter_audio = ca, attempt = 0, chunk_generated = False, temp_wav = None\<rparr>"
  obtain w1 st where l: "attempts_loop e ttl i chunk 3 (w, ?st0) = (w1, st)"
    by (cases "attempts_loop e ttl i chunk 3 (w, ?st0)")
  have gone: "\<forall>tw. temp_wav st = Some tw \<longrightarrow> fs w1 tw = None"
    using attempts_loop_temp_gone[OF l] by simp
  show ?thesis
    using assms l gone
    by (auto simp: process_chunk_def from_wav_def split: option.splits if_splits sum.splits)
qed

lemma attempt_body_low:
  assumes "always_low e chunk"
  shows "snd (attempt_body e ttl i chunk (w, st))
           = st\<lparr>attempt := attempt st + 1, temp_wav := Some (temp_name ttl i (attempt st))\<rparr>"
proof -
  obtain a t where h: "tts_to_file e (tts_calls w) chunk = (Some (Wav a), False)"
      "transcribe e (tts_calls w) a = Some t" "text_similarity chunk t = 40 / 100"
    using assms unfolding always_low_def by blast
  show ?thesis
    by (simp add: attempt_body_def Let_def h put_file_def verify_audio_quality_def
                  SIMILARITY_THRESHOLD_def)
qed

lemma attempts_loop_low:
  "always_low e chunk \<Longrightarrow> \<not> chunk_generated st \<Longrightarrow> attempt st \<le> max_attempts
   \<Longrightarrow> attempts_loop e ttl i chunk max_attempts (w, st) = (w', st')
   \<Longrightarrow> tts_calls w' = tts_calls w + (max_attempts - attempt st) \<and> \<not> chunk_generated st'"
proof (induction e ttl i chunk max_attempts "(w, st)" arbitrary: w st
       rule: attempts_loop.induct)
  case (1 e ttl i chunk max_attempts w st)
  show ?case
  proof (cases "attempt st < max_attempts")
    case True
    obtain w1 st1 where b: "attempt_body e ttl i chunk (w, st) = (w1, st1)"
      by (cases "attempt_body e ttl i chunk (w, st)")
    have st1: "st1 = st\<lparr>attempt := attempt st + 1, temp_wav := Some (temp_name ttl i (attempt st))\<rparr>"
      using attempt_body_low[OF "1.prems"(1), of ttl i w st] b by simp
    have w1: "tts_calls w1 = Suc (tts_calls w)"
      using attempt_body_calls[of e ttl i chunk w st] b by simp
    have c: "attempt st < max_attempts \<and> \<not> chunk_generated st" using True "1.prems"(2) by simp
    have run: "attempts_loop e ttl i chunk max_attempts (w1, st1) = (w', st')"
      using "1.prems"(4) c b by simp
    have "tts_calls w' = tts_calls w1 + (max_attempts - attempt st1) \<and> \<not> chunk_generated st'"
      using "1.hyps"[OF c b "1.prems"(1) _ _ run] st1 "1.prems"(2) True by simp
    with w1 st1 True show ?thesis by simp
  next
    case False
    with "1.prems" show ?thesis by simp
  qed
qed

lemma process_chunk_calls:
  "tts_calls (snd (process_chunk e ttl i chunk (w, ca))) \<le> tts_calls w + 3"
proof -
  let ?st0 = "\<lparr>chapter_audio = ca, attempt = 0, chunk_generated = False, temp_wav = None\<rparr>"
  obtain w1 st where l: "attempts_loop e ttl i chunk 3 (w, ?st0) = (w1, st)"
    by (cases "attempts_loop e ttl i chunk 3 (w, ?st0)")
  have "tts_calls w1 \<le> tts_calls w + 3"
    using attempts_loop_calls[OF l] by (simp add: budget_def)
  moreover have "snd (process_chunk e ttl i chunk (w, ca)) = w1"
    using l by (simp add: process_chunk_def split: option.splits sum.splits)
  ultimately show ?thesis by simp
qed

lemma process_chunk_calls_low:
  assumes "always_low e chunk"
  shows "tts_calls (snd (process_chunk e ttl i chunk (w, ca))) = tts_calls w + 3"
proof -
  let ?st0 = "\<lparr>chapter_audio = ca, attempt = 0, chunk_generated = False, temp_wav = None\<rparr>"
  obtain w1 st where l: "attempts_loop e ttl i chunk 3 (w, ?st0) = (w1, st)"
    by (cases "attempts_loop e ttl i chunk 3 (w, ?st0)")
  have "tts_calls w1 = tts_calls w + 3"
    using attempts_loop_low[OF assms _ _ l] by simp
  moreover have "snd (process_chunk e ttl i chunk (w, ca)) = w1"
    using l by (simp add: process_chunk_def split: option.splits sum.splits)
  ultimately show ?thesis by simp
qed

text \<open>
  C4: the loop calls the synthesiser at most \<open>max_attempts - attempt\<close> times, so
  at most 3 times for a chunk, whatever the attempts return; and when every attempt is
  transcribed with similarity 0.40 it calls it exactly 3 times.
\<close>

theorem synthesis_calls_bounded:
  "tts_calls (fst (attempts_loop e ttl i chunk max_attempts (w, st)))
     \<le> tts_calls w + (max_attempts - attempt st)
   \<and> tts_calls (snd (process_chunk e ttl i chunk (w, ca))) \<le> tts_calls w + 3
   \<and> (always_low e chunk
        \<longrightarrow> tts_calls (snd (process_chunk e ttl i chunk (w, ca))) = tts_calls w + 3)"
proof -
  obtain w' st' where l: "attempts_loop e ttl i chunk max_attempts (w, st) = (w', st')"
    by (cases "attempts_loop e ttl i chunk max_attempts (w, st)")
  have "tts_calls w' \<le> tts_calls w + (max_attempts - attempt st)"
    using attempts_loop_calls[OF l] by (simp add: budget_def split: if_splits)
  with l show ?thesis
    using process_chunk_calls process_chunk_calls_low by simp
qed

lemma always_low_garbage: "always_low garbage_env ''ab''"
proof -
  have "text_similarity ''ab'' ''axy'' = 40 / 100" by code_simp
  then show ?thesis by (simp add: always_low_def garbage_env_def)
qed

theorem synthesis_calls_bounded_witness:
  "always_low garbage_env ''ab''
   \<and> tts_calls (snd (process_chunk garbage_env ''Ch'' 0 ''ab'' (empty_world, []))) = 3"
  using synthesis_calls_bounded[of garbage_env "''Ch''" 0 "''ab''" 3 empty_world
          "\<lparr>chapter_audio = [], attempt = 0, chunk_generated = False, temp_wav = None\<rparr>" "[]"]
        always_low_garbage
  by (simp add: empty_world_def)

text \<open>
  C1 at a failing input: a chunk whose three attempts all score 0.40.  The \<open>finally\<close>
  clause of the last attempt has removed \<open>temp_wav\<close>, so the fallback
  \<open>AudioSegment.from_wav(temp_wav)\<close> of line 197 raises, outside any \<open>try\<close>, and the
  exception leaves \<open>create_audiobook_from_pickle\<close>.
\<close>

theorem exhausted_chunk_raises:
  "fst (process_chunk garbage_env ''Ch'' 0 ''ab'' (empty_world, [])) = Inl FileNotFoundError
   \<and> fst (create_audiobook_from_pickle garbage_env
            [\<lparr>chapter_title = ''Ch'', chapter_content = [''ab'']\<rparr>] ''book.m4b'' empty_world)
       = Inl FileNotFoundError"
  by code_simp

section \<open>Skipped chapters\<close>

lemma set_join: "set (join sep xs) \<subseteq> set sep \<union> \<Union> (set ` set xs)"
  by (induction sep xs rule: join.induct) auto

lemma strip_blank: "\<forall>c \<in> set s. isspace c \<Longrightarrow> strip s = []"
proof -
  assume "\<forall>c \<in> set s. isspace c"
  then have d: "dropWhile isspace s = []" by simp
  show ?thesis unfolding strip_def d by simp
qed

lemma isspace_space: "isspace CHR '' ''"
  by (simp add: isspace_def)

lemma blank_skipped: "blank ch \<Longrightarrow> skipped ch"
proof -
  assume b: "blank ch"
  have "\<forall>c \<in> set (join '' '' (chapter_content ch)). isspace c"
    using set_join[of "'' ''" "chapter_content ch"] b isspace_space
    by (auto simp: blank_def)
  then show ?thesis by (simp add: skipped_def chapter_text_def strip_blank)
qed

lemma chapters_loop_append:
  "chapters_loop e (xs @ ys) (w, st) =
     (case chapters_loop e xs (w, st) of
        (Inl err, w') \<Rightarrow> (Inl err, w')
      | (Inr st', w') \<Rightarrow> chapters_loop e ys (w', st'))"
  by (induction xs arbitrary: w st) (auto split: prod.splits sum.splits)

text \<open>
  C8: a chapter whose content lines are all empty or whitespace only leaves the waveform,
  the timeline, the offset and the file system as they were; a run with the chapter is
  the run without it.
\<close>

theorem blank_chapter_skipped:
  assumes "blank ch"
  shows "chapter_body e ch (w, st) = (Inr st, w)
         \<and> chapters_loop e (before @ [ch] @ after) (w, st)
             = chapters_loop e (before @ after) (w, st)"
proof -
  have 1: "chapter_body e ch (w, st) = (Inr st, w)" for w st
    using blank_skipped[OF assms] by (simp add: chapter_body_def)
  have 2: "chapters_loop e (ch # after) (w, st) = chapters_loop e after (w, st)" for w st
    by (simp add: 1)
  show ?thesis
    by (simp add: 1 2 chapters_loop_append[of e before] split: prod.splits sum.splits)
qed

theorem blank_chapter_skipped_witness:
  "blank \<lparr>chapter_title = ''Empty'', chapter_content = ['''', ''  '']\<rparr>
   \<and> chapters_loop faithful_env [\<lparr>chapter_title = ''Empty'', chapter_content = ['''', ''  '']\<rparr>]
        (empty_world, \<lparr>final_audio = [], chapters_info = [], current_offset = 0\<rparr>)
      = (Inr \<lparr>final_audio = [], chapters_info = [], current_offset = 0\<rparr>, empty_world)"
proof -
  have b: "blank \<lparr>chapter_title = ''Empty'', chapter_content = ['''', ''  '']\<rparr>"
    by (simp add: blank_def isspace_def)
  from blank_chapter_skipped[OF b, of faithful_env empty_world
         "\<lparr>final_audio = [], chapters_info = [], current_offset = 0\<rparr>" "[]" "[]"] b
  show ?thesis by simp
qed

section \<open>Temporary files\<close>

lemma process_chunk_dom: "dom (fs (snd (process_chunk e ttl i chunk (w, ca)))) \<subseteq> dom (fs w)"
proof -
  let ?st0 = "\<lparr>chapter_audio = ca, attempt = 0, chunk_generated = False, temp_wav = None\<rparr>"
  obtain w1 st where l: "attempts_loop e ttl i chunk 3 (w, ?st0) = (w1, st)"
    by (cases "attempts_loop e ttl i chunk 3 (w, ?st0)")
  have "snd (process_chunk e ttl i chunk (w, ca)) = w1"
    using l by (simp add: process_chunk_def split: option.splits sum.splits)
  with attempts_loop_dom[OF l] show ?thesis by simp
qed

lemma chunks_loop_dom: "dom (fs (snd (chunks_loop e ttl cs (w, ca)))) \<subseteq> dom (fs w)"
proof (induction cs arbitrary: w ca)
  case Nil
  show ?case by simp
next
  case (Cons c cs)
  obtain i chunk where c: "c = (i, chunk)" by (cases c)
  obtain r w1 where p: "process_chunk e ttl i chunk (w, ca) = (r, w1)"
    by (cases "process_chunk e ttl i chunk (w, ca)")
  have d: "dom (fs w1) \<subseteq> dom (fs w)" using process_chunk_dom[of e ttl i chunk w ca] p by simp
  show ?case
  proof (cases r)
    case (Inl err)
    with c p d show ?thesis by simp
  next
    case (Inr ca')
    with c p d Cons.IH[of w1 ca'] show ?thesis by auto
  qed
qed

lemma chapter_body_dom: "dom (fs (snd (chapter_body e ch (w, st)))) \<subseteq> dom (fs w)"
proof (cases "skipped ch")
  case True
  then show ?thesis by (simp add: chapter_body_def)
next
  case False
  obtain r w1 where s: "synthesize_chapter e ch w = (r, w1)"
    by (cases "synthesize_chapter e ch w")
  have "dom (fs w1) \<subseteq> dom (fs w)"
    using chunks_loop_dom[of e "chapter_title ch"
            "enumerate_py (split_into_chunks (chapter_text ch) 250)" w "[]"] s
    by (simp add: synthesize_chapter_def)
  with False s show ?thesis
    by (cases r) (simp_all add: chapter_body_def Let_def)
qed

lemma chapters_loop_dom: "dom (fs (snd (chapters_loop e chs (w, st)))) \<subseteq> dom (fs w)"
proof (induction chs arbitrary: w st)
  case Nil
  show ?case by simp
next
  case (Cons ch chs)
  obtain r w1 where p: "chapter_body e ch (w, st) = (r, w1)"
    by (cases "chapter_body e ch (w, st)")
  have d: "dom (fs w1) \<subseteq> dom (fs w)" using chapter_body_dom[of e ch w st] p by simp
  show ?case
  proof (cases r)
    case (Inl err)
    with p d show ?thesis by simp
  next
    case (Inr st')
    with p d Cons.IH[of w1 st'] show ?thesis by auto
  qed
qed

lemma export_step_clean:
  "fs (snd (export_step e a info out w)) ''temp_audiobook.m4a'' = None
   \<and> fs (snd (export_step e a info out w)) ''chapters.txt'' = None"
  by (simp add: export_step_def Let_def split: prod.splits bool.splits)

lemma export_step_dom:
  "dom (fs (snd (export_step e a info out w))) \<subseteq> insert out (dom (fs w))"
proof -
  have "x \<in> dom (fs (snd (export_step e a info out w))) \<Longrightarrow> x \<noteq> out \<Longrightarrow> x \<in> dom (fs w)" for x
    by (auto simp: export_step_def Let_def put_file_def create_chapter_file_def
             split: prod.splits bool.splits option.splits if_splits)
  then show ?thesis by blast
qed

text \<open>
  C9: whatever an attempt does, its \<open>temp_wav\<close> is absent when the attempt ends;
  whatever the export step does, \<open>temp_audiobook.m4a\<close> and \<open>chapters.txt\<close> are absent
  when it ends; and whatever the run returns or raises, the only path that may have
  appeared in the file system is \<open>output_file\<close>.
\<close>

theorem no_temporary_artifact_remains:
  "fs (fst (attempt_body e ttl i chunk (w, st))) (temp_name ttl i (attempt st)) = None
   \<and> fs (snd (export_step e a info output_file w)) ''temp_audiobook.m4a'' = None
   \<and> fs (snd (export_step e a info output_file w)) ''chapters.txt'' = None
   \<and> dom (fs (snd (create_audiobook_from_pickle e chapters output_file w)))
       \<subseteq> insert output_file (dom (fs w))"
proof -
  let ?init = "\<lparr>final_audio = [], chapters_info = [], current_offset = 0\<rparr>"
  obtain r w1 where l: "chapters_loop e chapters (w, ?init) = (r, w1)"
    by (cases "chapters_loop e chapters (w, ?init)")
  have d: "dom (fs w1) \<subseteq> dom (fs w)" using chapters_loop_dom[of e chapters w ?init] l by simp
  have "dom (fs (snd (create_audiobook_from_pickle e chapters output_file w)))
       \<subseteq> insert output_file (dom (fs w))"
  proof (cases r)
    case (Inl err)
    with l d show ?thesis by (auto simp: create_audiobook_from_pickle_def)
  next
    case (Inr s)
    have "dom (fs (snd (export_step e (final_audio s) (chapters_info s) output_file w1)))
            \<subseteq> insert output_file (dom (fs w))"
      using d export_step_dom[of e "final_audio s" "chapters_info s" output_file w1] by blast
    with l Inr show ?thesis by (simp add: create_audiobook_from_pickle_def)
  qed
  then show ?thesis
    using attempt_body_temp_removed export_step_clean by simp
qed

text \<open>
  C10: \<open>create_chapter_file\<close> writes the stanzas to \<open>chapters.txt\<close> and ignores its
  argument \<open>output_file\<close>.
\<close>

theorem create_chapter_file_fixed_path:
  "create_chapter_file infos output_file w = create_chapter_file infos output_file' w
   \<and> fs (create_chapter_file infos output_file w)
       = (fs w)(''chapters.txt'' \<mapsto> Text (concat (map chapter_stanza infos)))"
  by (simp add: create_chapter_file_def)

section \<open>The chapter timeline\<close>

lemma chained_nth:
  "chained off es ds \<Longrightarrow>
     length es = length ds
     \<and> (\<forall>i < length es. start_ms (es ! i) = (if i = 0 then off else end_ms (es ! (i - 1)))
                         \<and> end_ms (es ! i) = start_ms (es ! i) + ds ! i)"
proof (induction off es ds rule: chained.induct)
  case (1 off)
  then show ?case by simp
next
  case (2 off x xs d ds)
  note p = "2.prems"[unfolded chained.simps]
  have hd: "start_ms x = off" "end_ms x = off + d" and c: "chained (end_ms x) xs ds"
    using p by blast+
  have ih: "length xs = length ds"
    "\<And>i. i < length xs \<Longrightarrow> start_ms (xs ! i) = (if i = 0 then end_ms x else end_ms (xs ! (i - 1)))
                         \<and> end_ms (xs ! i) = start_ms (xs ! i) + ds ! i"
    using "2.IH"[OF c] by blast+
  show ?case
  proof (intro conjI allI impI)
    show "length (x # xs) = length (d # ds)" using ih(1) by simp
  next
    fix i assume "i < length (x # xs)"
    then show "start_ms ((x # xs) ! i) = (if i = 0 then off else end_ms ((x # xs) ! (i - 1)))"
      using hd ih(2)[of "i - 1"] by (cases i) (auto simp: nth_Cons')
  next
    fix i assume "i < length (x # xs)"
    then show "end_ms ((x # xs) ! i) = start_ms ((x # xs) ! i) + (d # ds) ! i"
      using hd ih(2)[of "i - 1"] by (cases i) auto
  qed
qed simp_all

lemma chapters_loop_chained:
  "fst (chapters_loop e chs (w, st0)) = Inr st \<Longrightarrow>
     \<exists>es. chapters_info st = chapters_info st0 @ es
          \<and> chained (current_offset st0) es (map (duration e) (assembled e chs w))
          \<and> final_audio st = final_audio st0 @ concat (assembled e chs w)"
proof (induction chs arbitrary: w st0)
  case Nil
  then show ?case by simp
next
  case (Cons ch chs)
  show ?case
  proof (cases "skipped ch")
    case True
    then have "chapter_body e ch (w, st0) = (Inr st0, w)" by (simp add: chapter_body_def)
    with Cons.prems have "fst (chapters_loop e chs (w, st0)) = Inr st" by simp
    from Cons.IH[OF this] True show ?thesis by simp
  next
    case False
    obtain r w1 where s: "synthesize_chapter e ch w = (r, w1)"
      by (cases "synthesize_chapter e ch w")
    show ?thesis
    proof (cases r)
      case (Inl err)
      with Cons.prems False s show ?thesis by (simp add: chapter_body_def)
    next
      case (Inr ca)
      define x where "x = \<lparr>start_ms = current_offset st0,
          end_ms = current_offset st0 + duration e ca, title = chapter_title ch\<rparr>"
      define st1 where "st1 = \<lparr>final_audio = final_audio st0 @ ca,
          chapters_info = chapters_info st0 @ [x],
          current_offset = current_offset st0 + duration e ca\<rparr>"
      have b: "chapter_body e ch (w, st0) = (Inr st1, w1)"
        using False s Inr by (simp add: chapter_body_def Let_def st1_def x_def)
      with Cons.prems have "fst (chapters_loop e chs (w1, st1)) = Inr st" by simp
      from Cons.IH[OF this] obtain es where es:
        "chapters_info st = chapters_info st1 @ es"
        "chained (current_offset st1) es (map (duration e) (assembled e chs w1))"
        "final_audio st = final_audio st1 @ concat (assembled e chs w1)"
        by blast
      have a: "assembled e (ch # chs) w = ca # assembled e chs w1"
        using False s Inr by simp
      have "chapters_info st = chapters_info st0 @ (x # es)"
        using es(1) by (simp add: st1_def)
      moreover have "chained (current_offset st0) (x # es)
                       (map (duration e) (assembled e (ch # chs) w))"
        using es(2) unfolding a by (simp add: st1_def x_def)
      moreover have "final_audio st = final_audio st0 @ concat (assembled e (ch # chs) w)"
        using es(3) unfolding a by (simp add: st1_def)
      ultimately show ?thesis by blast
    qed
  qed
qed

text \<open>
  C5: when the loop over the chapters completes, the timeline has one entry for each
  assembled chapter audio; the first entry starts at 0, every other entry starts where the
  entry before it ends, and every entry ends later than it starts by the duration of its
  chapter's audio.
\<close>

theorem timeline_contiguous:
  assumes "fst (chapters_loop e chapters (w, initial_assembly)) = Inr st"
  shows "length (chapters_info st) = length (assembled e chapters w)
         \<and> (\<forall>i < length (chapters_info st).
               start_ms (chapters_info st ! i)
                 = (if i = 0 then 0 else end_ms (chapters_info st ! (i - 1)))
               \<and> end_ms (chapters_info st ! i) - start_ms (chapters_info st ! i)
                   = duration e (assembled e chapters w ! i)
               \<and> start_ms (chapters_info st ! i) \<le> end_ms (chapters_info st ! i))"
proof -
  from chapters_loop_chained[OF assms]
  have c: "chained 0 (chapters_info st) (map (duration e) (assembled e chapters w))"
    by (simp add: initial_assembly_def)
  from chained_nth[OF c] show ?thesis by auto
qed

theorem timeline_contiguous_witness:
  "fst (chapters_loop faithful_env two_chapters (empty_world, initial_assembly))
     = Inr \<lparr>final_audio = [72, 101, 108, 108, 111, 32, 119, 111, 114, 108, 100, 46, 66, 121, 101, 46],
            chapters_info = [\<lparr>start_ms = 0, end_ms = 12, title = ''One''\<rparr>,
                             \<lparr>start_ms = 12, end_ms = 16, title = ''Two''\<rparr>],
            current_offset = 16\<rparr>
   \<and> length (assembled faithful_env two_chapters empty_world) = 2
   \<and> duration faithful_env (assembled faithful_env two_chapters empty_world ! 0) = 12
   \<and> duration faithful_env (assembled faithful_env two_chapters empty_world ! 1) = 4"
proof -
  let ?st = "\<lparr>final_audio = [72, 101, 108, 108, 111, 32, 119, 111, 114, 108, 100, 46, 66, 121, 101, 46],
            chapters_info = [\<lparr>start_ms = 0, end_ms = 12, title = ''One''\<rparr>,
                             \<lparr>start_ms = 12, end_ms = 16, title = ''Two''\<rparr>],
            current_offset = 16\<rparr>"
  have h: "fst (chapters_loop faithful_env two_chapters (empty_world, initial_assembly)) = Inr ?st"
    by code_simp
  note t = timeline_contiguous[OF h]
  have l: "length (assembled faithful_env two_chapters empty_world) = 2"
    using t[THEN conjunct1] by simp
  have "end_ms (chapters_info ?st ! 0) - start_ms (chapters_info ?st ! 0)
          = duration faithful_env (assembled faithful_env two_chapters empty_world ! 0)"
    using t[THEN conjunct2, rule_format, of 0] by simp
  then have d0: "duration faithful_env (assembled faithful_env two_chapters empty_world ! 0) = 12"
    by simp
  have "end_ms (chapters_info ?st ! 1) - start_ms (chapters_info ?st ! 1)
          = duration faithful_env (assembled faithful_env two_chapters empty_world ! 1)"
    using t[THEN conjunct2, rule_format, of 1] by simp
  then have d1: "duration faithful_env (assembled faithful_env two_chapters empty_world ! 1) = 4"
    by simp
  from h l d0 d1 show ?thesis by simp
qed

section \<open>The similarity scorer: bounds, identity, asymmetry\<close>

subsection \<open>No more matches than characters\<close>

lemma matched_simps [simp]:
  "matched [] = 0" "matched ((i, j, k) # bs) = k + matched bs"
  "matched (xs @ ys) = matched xs + matched ys"
  by (simp_all add: matched_def)

lemma matching_loop_room:
  "matched (matching_loop a b b2j queue blocks) \<le> matched blocks + room_a queue
   \<and> matched (matching_loop a b b2j queue blocks) \<le> matched blocks + room_b queue"
proof (induction a b b2j queue blocks rule: matching_loop.induct)
  case (1 a b b2j matching_blocks)
  show ?case by (simp add: room_a_def room_b_def)
next
  case (2 a b b2j alo ahi blo bhi queue matching_blocks)
  obtain i j k where f: "find_longest_match a b b2j alo ahi blo bhi = (i, j, k)"
    by (metis prod_cases3)
  note r = find_longest_match_range[OF f]
  show ?case
  proof (cases "k = 0")
    case True
    have "matched (matching_loop a b b2j queue matching_blocks) \<le> matched matching_blocks + room_a queue
        \<and> matched (matching_loop a b b2j queue matching_blocks) \<le> matched matching_blocks + room_b queue"
      using "2.IH"(2)[OF f[symmetric] refl] True by simp
    with f True show ?thesis by (simp add: room_a_def room_b_def)
  next
    case False
    let ?q = "(if i + k < ahi \<and> j + k < bhi then [(i + k, ahi, j + k, bhi)] else [])
                  @ (if alo < i \<and> blo < j then [(alo, i, blo, j)] else []) @ queue"
    have ih: "matched (matching_loop a b b2j ?q (matching_blocks @ [(i, j, k)]))
                \<le> matched (matching_blocks @ [(i, j, k)]) + room_a ?q
              \<and> matched (matching_loop a b b2j ?q (matching_blocks @ [(i, j, k)]))
                \<le> matched (matching_blocks @ [(i, j, k)]) + room_b ?q"
      using "2.IH"(1)[OF f[symmetric] refl False] .
    have ra: "k + room_a ?q \<le> room_a ((alo, ahi, blo, bhi) # queue)"
      using r False by (auto simp: room_a_def)
    have rb: "k + room_b ?q \<le> room_b ((alo, ahi, blo, bhi) # queue)"
      using r False by (auto simp: room_b_def)
    have step: "matching_loop a b b2j ((alo, ahi, blo, bhi) # queue) matching_blocks
                 = matching_loop a b b2j ?q (matching_blocks @ [(i, j, k)])"
      using f False by simp
    show ?thesis unfolding step using ih ra rb by simp
  qed
qed

lemma matched_insort: "matched (insort x xs) = matched [x] + matched xs"
  by (induction xs) (auto simp: matched_def)

lemma matched_sort: "matched (sort xs) = matched xs"
proof (induction xs)
  case Nil
  show ?case by simp
next
  case (Cons x xs)
  have "matched (sort (x # xs)) = matched [x] + matched (sort xs)"
    by (simp add: matched_insort)
  also have "\<dots> = matched [x] + matched xs" using Cons.IH by simp
  also have "\<dots> = matched (x # xs)" by (simp add: matched_def)
  finally show ?case .
qed

lemma merge_adjacent_matched:
  "merge_adjacent ms (na, i1, j1, k1) = (na', i1', j1', k1')
   \<Longrightarrow> matched na' + k1' = matched na + k1 + matched ms"
proof (induction ms arbitrary: na i1 j1 k1)
  case Nil
  then show ?case by simp
next
  case (Cons m ms)
  obtain i2 j2 k2 where m: "m = (i2, j2, k2)" by (cases m)
  show ?case
  proof (cases "i1 + k1 = i2 \<and> j1 + k1 = j2")
    case True
    with Cons.prems m have "merge_adjacent ms (na, i1, j1, k1 + k2) = (na', i1', j1', k1')"
      by simp
    from Cons.IH[OF this] m show ?thesis by simp
  next
    case False
    with Cons.prems m
    have "merge_adjacent ms (if k1 \<noteq> 0 then na @ [(i1, j1, k1)] else na, i2, j2, k2)
            = (na', i1', j1', k1')"
      by simp
    from Cons.IH[OF this] m show ?thesis by auto
  qed
qed

lemma matched_get_matching_blocks:
  "matched (get_matching_blocks a b)
     = matched (matching_loop a b (chain_b b) [(0, length a, 0, length b)] [])"
proof -
  let ?raw = "matching_loop a b (chain_b b) [(0, length a, 0, length b)] []"
  obtain na i1 j1 k1 where m: "merge_adjacent (sort ?raw) ([], 0, 0, 0) = (na, i1, j1, k1)"
    by (metis prod_cases4)
  have "matched na + k1 = matched (sort ?raw)"
    using merge_adjacent_matched[OF m] by simp
  then have "matched na + k1 = matched ?raw" by (simp add: matched_sort)
  moreover have "matched (get_matching_blocks a b) = matched na + k1"
    using m by (simp add: get_matching_blocks_def Let_def)
  ultimately show ?thesis by simp
qed

lemma matched_le:
  "matched (get_matching_blocks a b) \<le> length a"
  "matched (get_matching_blocks a b) \<le> length b"
  using matching_loop_room[of a b "chain_b b" "[(0, length a, 0, length b)]" "[]"]
  by (simp_all add: matched_get_matching_blocks room_a_def room_b_def)

lemma calculate_ratio_bounds:
  "2 * m \<le> n \<Longrightarrow> 0 \<le> calculate_ratio m n \<and> calculate_ratio m n \<le> 1"
proof -
  assume h: "2 * m \<le> n"
  show ?thesis
  proof (cases "n = 0")
    case True
    then show ?thesis by (simp add: calculate_ratio_def)
  next
    case False
    have "(2 * of_nat m :: rat) \<le> of_nat n"
      using h by (metis of_nat_le_iff of_nat_mult of_nat_numeral)
    with False show ?thesis by (simp add: calculate_ratio_def)
  qed
qed

lemma ratio_bounds: "0 \<le> ratio a b \<and> ratio a b \<le> 1"
proof -
  have "2 * matched (get_matching_blocks a b) \<le> length a + length b"
    using matched_le[of a b] by simp
  from calculate_ratio_bounds[OF this] show ?thesis
    by (simp add: ratio_def matched_def)
qed

subsection \<open>A string against itself\<close>

lemma drun_nonpop:
  "\<not> popular s (s ! i) \<Longrightarrow> drun s i = (if i = 0 then 1 else Suc (drun s (i - 1)))"
  by (cases i) simp_all

lemma drun_pop: "popular s (s ! i) \<Longrightarrow> drun s i = 0"
  by (cases i) simp_all

lemma diag_step:
  assumes p: "prev_ok s i m" and np: "\<not> popular s (s ! i)" and e: "s ! j = s ! i"
  shows "j2lenget m j + 1 \<le> drun s i" "j2lenget m j + 1 \<le> drun s j"
        "j = i \<Longrightarrow> j2lenget m j + 1 = drun s i"
proof -
  have npj: "\<not> popular s (s ! j)" using np e by simp
  note di = drun_nonpop[OF np] and dj = drun_nonpop[OF npj]
  show "j2lenget m j + 1 \<le> drun s i"
  proof (cases "j = 0")
    case True
    then show ?thesis using di by (simp add: j2lenget_def)
  next
    case False
    show ?thesis
    proof (cases "m (j - 1)")
      case None
      with False show ?thesis using di by (simp add: j2lenget_def)
    next
      case (Some v)
      with p have "0 < i" "v \<le> drun s (i - 1)" by (auto simp: prev_ok_def)
      with False Some show ?thesis using di by (simp add: j2lenget_def)
    qed
  qed
  show "j2lenget m j + 1 \<le> drun s j"
  proof (cases "j = 0")
    case True
    then show ?thesis using dj by (simp add: j2lenget_def)
  next
    case False
    show ?thesis
    proof (cases "m (j - 1)")
      case None
      with False show ?thesis using dj by (simp add: j2lenget_def)
    next
      case (Some v)
      with p have "v \<le> drun s (j - 1)" by (auto simp: prev_ok_def)
      with False Some show ?thesis using dj by (simp add: j2lenget_def)
    qed
  qed
  show "j2lenget m j + 1 = drun s i" if ji: "j = i"
  proof (cases "i = 0")
    case True
    then show ?thesis using di ji by (simp add: j2lenget_def)
  next
    case False
    show ?thesis
    proof (cases "popular s (s ! (i - 1))")
      case True
      then have z: "drun s (i - 1) = 0" by (rule drun_pop)
      have "j2lenget m i = 0"
      proof (cases "m (i - 1)")
        case None
        with False show ?thesis by (simp add: j2lenget_def)
      next
        case (Some v)
        with p have "v \<le> drun s (i - 1)" by (auto simp: prev_ok_def)
        with z Some False show ?thesis by (simp add: j2lenget_def)
      qed
      with z False di ji show ?thesis by simp
    next
      case np1: False
      with p False have "m (i - 1) = Some (drun s (i - 1))" by (simp add: prev_ok_def)
      with False di ji show ?thesis by (simp add: j2lenget_def)
    qed
  qed
qed

lemma inner_loop_diag:
  assumes "prev_ok s i m" and "\<not> popular s (s ! i)"
  shows "sorted js \<Longrightarrow> \<forall>j \<in> set js. j < n \<and> s ! j = s ! i
   \<Longrightarrow> cur_ok s i nm \<Longrightarrow> (i \<notin> set js \<longrightarrow> nm i = Some (drun s i))
   \<Longrightarrow> \<forall>i' < i. drun s i' \<le> bs \<Longrightarrow> (i \<notin> set js \<longrightarrow> drun s i \<le> bs)
   \<Longrightarrow> inner_loop 0 n i m js (nm, b, b, bs) = (nm', bi', bj', bs')
   \<Longrightarrow> cur_ok s i nm' \<and> nm' i = Some (drun s i) \<and> bi' = bj' \<and> (\<forall>i' \<le> i. drun s i' \<le> bs')"
proof (induction js arbitrary: nm b bs)
  case Nil
  have "\<forall>i' \<le> i. drun s i' \<le> bs"
  proof (intro allI impI)
    fix i' assume "i' \<le> i"
    then consider "i' < i" | "i' = i" by linarith
    then show "drun s i' \<le> bs" using Nil.prems(5,6) by cases simp_all
  qed
  with Nil.prems show ?case by simp
next
  case (Cons j js)
  define k where "k = j2lenget m j + 1"
  have jn: "j < n" and e: "s ! j = s ! i" using Cons.prems(2) by simp_all
  have k1: "k \<le> drun s i" and k2: "k \<le> drun s j" and k3: "j = i \<Longrightarrow> k = drun s i"
    using diag_step[OF assms e] by (simp_all add: k_def)
  have srt: "sorted js" and ge: "\<forall>x \<in> set js. j \<le> x" using Cons.prems(1) by simp_all
  have rest: "\<forall>j \<in> set js. j < n \<and> s ! j = s ! i" using Cons.prems(2) by simp
  have nm2: "cur_ok s i (nm(j \<mapsto> k))"
    using Cons.prems(3) k1 k2 by (auto simp: cur_ok_def)
  have nmi: "i \<notin> set js \<longrightarrow> (nm(j \<mapsto> k)) i = Some (drun s i)"
    using Cons.prems(4) k3 by auto
  show ?case
  proof (cases "k > bs")
    case True
    have ji: "j = i"
    proof (rule ccontr)
      assume ne: "j \<noteq> i"
      show False
      proof (cases "j < i")
        case True
        with Cons.prems(5) have "drun s j \<le> bs" by simp
        with k2 \<open>k > bs\<close> show False by simp
      next
        case False
        with ne have "i < j" by simp
        with ge have "i \<notin> set (j # js)" by auto
        with Cons.prems(6) have "drun s i \<le> bs" by simp
        with k1 \<open>k > bs\<close> show False by simp
      qed
    qed
    have run: "inner_loop 0 n i m js (nm(j \<mapsto> k), i + 1 - k, i + 1 - k, k) = (nm', bi', bj', bs')"
      using Cons.prems(7) jn True ji by (simp add: k_def Let_def)
    have a: "\<forall>i' < i. drun s i' \<le> k" using Cons.prems(5) True by auto
    have b: "i \<notin> set js \<longrightarrow> drun s i \<le> k" using k3[OF ji] by simp
    from Cons.IH[OF srt rest nm2 nmi a b run] show ?thesis .
  next
    case False
    have run: "inner_loop 0 n i m js (nm(j \<mapsto> k), b, b, bs) = (nm', bi', bj', bs')"
      using Cons.prems(7) jn False by (simp add: k_def Let_def)
    have b: "i \<notin> set js \<longrightarrow> drun s i \<le> bs"
    proof (cases "j = i")
      case True
      with k3 False show ?thesis by simp
    next
      case ne: False
      with Cons.prems(6) show ?thesis by auto
    qed
    from Cons.IH[OF srt rest nm2 nmi Cons.prems(5) b run] show ?thesis .
  qed
qed

lemma sorted_indices: "sorted (indices s c)"
  unfolding indices_def by (rule sorted_wrt_filter) simp

lemma set_indices: "set (indices s c) = {j. j < length s \<and> s ! j = c}"
  by (auto simp: indices_def)

lemma row_diag:
  assumes p: "prev_ok s i m" and i: "i < length s"
    and best: "\<forall>i' < i. drun s i' \<le> bs"
    and run: "inner_loop 0 (length s) i m (chain_b s (s ! i)) (Map.empty, b, b, bs) = (nm', bi', bj', bs')"
  shows "prev_ok s (Suc i) nm' \<and> bi' = bj' \<and> (\<forall>i' < Suc i. drun s i' \<le> bs')"
proof (cases "popular s (s ! i)")
  case True
  then have "nm' = Map.empty" "bi' = b" "bj' = b" "bs' = bs"
    using run by (simp_all add: chain_b_def)
  with best drun_pop[OF True] show ?thesis
    by (auto simp: prev_ok_def True less_Suc_eq)
next
  case False
  have js: "chain_b s (s ! i) = indices s (s ! i)" using False by (simp add: chain_b_def)
  have mem: "i \<in> set (indices s (s ! i))" using i by (simp add: set_indices)
  have "cur_ok s i nm' \<and> nm' i = Some (drun s i) \<and> bi' = bj' \<and> (\<forall>i' \<le> i. drun s i' \<le> bs')"
  proof (rule inner_loop_diag[OF p False sorted_indices _ _ _ best _ run[unfolded js]])
    show "\<forall>j \<in> set (indices s (s ! i)). j < length s \<and> s ! j = s ! i"
      by (simp add: set_indices)
    show "cur_ok s i Map.empty" by (simp add: cur_ok_def)
    show "i \<notin> set (indices s (s ! i)) \<longrightarrow> Map.empty i = Some (drun s i)" using mem by simp
    show "i \<notin> set (indices s (s ! i)) \<longrightarrow> drun s i \<le> bs" using mem by simp
  qed
  then show ?thesis by (auto simp: prev_ok_def cur_ok_def less_Suc_eq_le)
qed

lemma outer_loop_diag:
  "i \<le> length s \<Longrightarrow> prev_ok s i m \<Longrightarrow> \<forall>i' < i. drun s i' \<le> bs
   \<Longrightarrow> outer_loop s (chain_b s) 0 (length s) [i..<length s] (m, b, b, bs) = (m', bi', bj', bs')
   \<Longrightarrow> bi' = bj'"
proof (induction "length s - i" arbitrary: i m b bs)
  case 0
  then show ?case by simp
next
  case (Suc d)
  then have lt: "i < length s" by simp
  obtain nm b1 b2 bs1 where
    step: "inner_loop 0 (length s) i m (chain_b s (s ! i)) (Map.empty, b, b, bs) = (nm, b1, b2, bs1)"
    by (metis prod_cases4)
  from row_diag[OF Suc.prems(2) lt Suc.prems(3) step]
  have r: "prev_ok s (Suc i) nm" "b1 = b2" "\<forall>i' < Suc i. drun s i' \<le> bs1" by simp_all
  have run: "outer_loop s (chain_b s) 0 (length s) [Suc i..<length s] (nm, b1, b1, bs1)
               = (m', bi', bj', bs')"
    using Suc.prems(4) lt step r(2) by (simp add: upt_conv_Cons)
  have d: "d = length s - Suc i" using Suc.hyps(2) by simp
  show ?case
    using Suc.hyps(1)[OF d _ r(1) r(3) run] lt by simp
qed

lemma extend_back_same: "extend_back s s 0 0 (b, b, k) = (0, 0, k + b)"
proof (induction b arbitrary: k)
  case 0
  show ?case by simp
next
  case (Suc b)
  have "extend_back s s 0 0 (Suc b, Suc b, k) = extend_back s s 0 0 (b, b, k + 1)"
    by simp
  with Suc[of "k + 1"] show ?case by simp
qed

lemma extend_fwd_same: "k \<le> n \<Longrightarrow> extend_fwd s s n n (0, 0, k) = (0, 0, n)"
proof (induction "n - k" arbitrary: k)
  case 0
  then show ?case by simp
next
  case (Suc d)
  then have lt: "k < n" by simp
  have "extend_fwd s s n n (0, 0, k) = extend_fwd s s n n (0, 0, k + 1)"
    using lt by simp
  moreover have "extend_fwd s s n n (0, 0, k + 1) = (0, 0, n)"
    using Suc.hyps(1)[of "k + 1"] Suc.hyps(2) lt by simp
  ultimately show ?case by simp
qed

lemma find_longest_match_same:
  "find_longest_match s s (chain_b s) 0 (length s) 0 (length s) = (0, 0, length s)"
proof -
  let ?n = "length s"
  obtain m b1 b2 bs where
    o: "outer_loop s (chain_b s) 0 ?n [0..<?n] (Map.empty, 0, 0, 0) = (m, b1, b2, bs)"
    by (metis prod_cases4)
  have "prev_ok s 0 Map.empty" by (simp add: prev_ok_def)
  from outer_loop_diag[OF _ this _ o] have eq: "b1 = b2" by simp
  have "row_ok 0 0 0 Map.empty" by (simp add: row_ok_def)
  moreover have "best_ok 0 0 0 ?n (0, 0, 0)" by (simp add: best_ok_def)
  ultimately have "best_ok 0 0 ?n ?n (b1, b2, bs)"
    using outer_loop_ok[OF _ _ _ _ o] by simp
  then have le: "bs + b1 \<le> ?n" by (auto simp: best_ok_def)
  have "find_longest_match s s (chain_b s) 0 ?n 0 ?n
          = extend_fwd s s ?n ?n (extend_back s s 0 0 (b1, b1, bs))"
    using o eq by (simp add: find_longest_match_def)
  also have "\<dots> = extend_fwd s s ?n ?n (0, 0, bs + b1)"
    by (simp only: extend_back_same)
  also have "\<dots> = (0, 0, ?n)"
    using le by (rule extend_fwd_same)
  finally show ?thesis .
qed

lemma ratio_same: "ratio s s = 1"
proof (cases "s = []")
  case True
  then show ?thesis by (simp add: ratio_def calculate_ratio_def)
next
  case False
  have "matching_loop s s (chain_b s) [(0, length s, 0, length s)] [] = [(0, 0, length s)]"
    using False by (simp add: find_longest_match_same)
  then have "matched (get_matching_blocks s s) = length s"
    by (simp add: matched_get_matching_blocks)
  then have "ratio s s = calculate_ratio (length s) (length s + length s)"
    by (simp add: ratio_def matched_def)
  with False show ?thesis by (simp add: calculate_ratio_def)
qed

text \<open>
  C6, as the code has it: the similarity of any two texts lies between 0 and 1, and the
  similarity of a text with itself is 1.
\<close>

theorem text_similarity_bounds_and_identity:
  "0 \<le> text_similarity a b \<and> text_similarity a b \<le> 1 \<and> text_similarity x x = 1"
  using ratio_bounds[of "normalize a" "normalize b"] ratio_same[of "normalize x"]
  by (simp add: text_similarity_def)

text \<open>
  C6, as the specification states it, fails in its symmetry: the matcher looks for the
  longest block that starts earliest in its first argument, and the blocks it finds for
  \<open>("tide", "diet")\<close> and for \<open>("diet", "tide")\<close> differ.
\<close>

theorem text_similarity_not_symmetric:
  "text_similarity ''tide'' ''diet'' = 1 / 4 \<and> text_similarity ''diet'' ''tide'' = 1 / 2
   \<and> text_similarity ''tide'' ''diet'' \<noteq> text_similarity ''diet'' ''tide''"
  by code_simp

end
